theory Spec2Isabelle
  imports Main
begin

section \<open>The standard library's \<open>container/list\<close>, as \<open>ordset.go\<close> uses it\<close>

text \<open>
  \<open>ordset.go\<close> imports Go's \<open>container/list\<close>: a doubly linked ring of \<open>Element\<close>s around a
  sentinel \<open>root\<close>. An \<open>OrderedSet\<close> keeps \<open>*list.Element\<close> pointers in its hash map, so the
  identity of an element matters. An element is modelled by its address and its \<open>Value\<close>
  field (no function of \<open>ordset.go\<close> or of \<open>container/list\<close> ever assigns \<open>Value\<close> after the
  allocation); a \<open>*list.Element\<close> is an \<open>'a Element option\<close>, \<open>None\<close> being Go's \<open>nil\<close>.
  The ring of a list is the sequence of its elements from \<open>root.next\<close> to \<open>root.prev\<close>;
  \<open>e.list == l\<close> holds exactly for the elements whose address is in the ring of \<open>l\<close>.
  \<open>heap_next\<close> is the next address the allocator hands out for \<open>&Element{Value: v}\<close>.
\<close>

record 'a Element =
  addr :: nat
  Value :: 'a

record 'a List =
  ring :: "'a Element list"
  heap_next :: nat

text \<open>A position of the ring that \<open>insert\<close> and \<open>move\<close> link behind: the sentinel
  \<open>&l.root\<close> or an element.\<close>

datatype 'a anchor = Root | Node "'a Element"

text \<open>Go panics at run time when a nil pointer is dereferenced, when a slice is indexed out
  of range, and when a type assertion \<open>x.(T)\<close> with one result fails.\<close>

datatype panic = NilDereference | IndexOutOfRange | InterfaceConversion

text \<open>\<open>list.New()\<close>: an empty ring.\<close>

definition list_New :: "'a List" where
  "list_New = \<lparr>ring = [], heap_next = 0\<rparr>"

text \<open>\<open>func (l *List) Len() int { return l.len }\<close>\<close>

definition list_Len :: "'a List \<Rightarrow> int" where
  "list_Len l = int (length (ring l))"

text \<open>\<open>Front\<close> and \<open>Back\<close> return nil when \<open>l.len == 0\<close>, else \<open>l.root.next\<close> and
  \<open>l.root.prev\<close>.\<close>

definition list_Front :: "'a List \<Rightarrow> 'a Element option" where
  "list_Front l = (if list_Len l = 0 then None else Some (hd (ring l)))"

definition list_Back :: "'a List \<Rightarrow> 'a Element option" where
  "list_Back l = (if list_Len l = 0 then None else Some (last (ring l)))"

text \<open>\<open>e.list == l\<close>\<close>

definition in_list :: "'a Element \<Rightarrow> 'a List \<Rightarrow> bool" where
  "in_list e l = (addr e \<in> set (map addr (ring l)))"

text \<open>\<open>l.root.prev\<close>: the last element, or the sentinel itself in an empty ring.\<close>

definition root_prev :: "'a List \<Rightarrow> 'a anchor" where
  "root_prev l = (case ring l of [] \<Rightarrow> Root | _ \<Rightarrow> Node (last (ring l)))"

text \<open>\<open>mark.prev\<close> for an element \<open>mark\<close> of the ring: its predecessor, the sentinel for the
  first element. The first argument is the predecessor of the part still searched.\<close>

fun prev_from :: "'a anchor \<Rightarrow> nat \<Rightarrow> 'a Element list \<Rightarrow> 'a anchor" where
  "prev_from p a [] = p"
| "prev_from p a (x # xs) = (if addr x = a then p else prev_from (Node x) a xs)"

definition elem_prev :: "'a Element \<Rightarrow> 'a List \<Rightarrow> 'a anchor" where
  "elem_prev mark l = prev_from Root (addr mark) (ring l)"

text \<open>Linking \<open>e\<close> behind the element at address \<open>a\<close>. The functions below call it with
  the address of an element of the ring only; for any other address the ring stays as it
  is.\<close>

fun link_after :: "'a Element \<Rightarrow> nat \<Rightarrow> 'a Element list \<Rightarrow> 'a Element list" where
  "link_after e a [] = []"
| "link_after e a (x # xs) = (if addr x = a then x # e # xs else x # link_after e a xs)"

text \<open>\<open>func (l *List) insert(e, at *Element) *Element\<close>: links \<open>e\<close> behind \<open>at\<close>.\<close>

definition list_insert :: "'a Element \<Rightarrow> 'a anchor \<Rightarrow> 'a List \<Rightarrow> 'a List" where
  "list_insert e at l =
     l\<lparr>ring := (case at of Root \<Rightarrow> e # ring l | Node p \<Rightarrow> link_after e (addr p) (ring l))\<rparr>"

text \<open>\<open>func (l *List) insertValue(v any, at *Element) *Element
  { return l.insert(&Element{Value: v}, at) }\<close>\<close>

definition list_insertValue :: "'a \<Rightarrow> 'a anchor \<Rightarrow> 'a List \<Rightarrow> 'a Element \<times> 'a List" where
  "list_insertValue v at l =
     (let e = \<lparr>addr = heap_next l, Value = v\<rparr>
      in (e, list_insert e at (l\<lparr>heap_next := heap_next l + 1\<rparr>)))"

text \<open>\<open>func (l *List) remove(e *Element)\<close>: unlinks \<open>e\<close>.\<close>

definition list_remove :: "'a Element \<Rightarrow> 'a List \<Rightarrow> 'a List" where
  "list_remove e l = l\<lparr>ring := filter (\<lambda>x. addr x \<noteq> addr e) (ring l)\<rparr>"

text \<open>\<open>func (l *List) move(e, at *Element)\<close>: returns at once when \<open>e == at\<close>; otherwise
  unlinks \<open>e\<close> and links it behind \<open>at\<close>.\<close>

definition list_move :: "'a Element \<Rightarrow> 'a anchor \<Rightarrow> 'a List \<Rightarrow> 'a List" where
  "list_move e at l =
     (case at of
        Root \<Rightarrow> list_insert e Root (list_remove e l)
      | Node p \<Rightarrow> if addr e = addr p then l else list_insert e (Node p) (list_remove e l))"

text \<open>
  \<open>func (l *List) Remove(e *Element) any {
      if e.list == l { l.remove(e) }
      return e.Value }\<close>
\<close>

definition list_Remove :: "'a Element option \<Rightarrow> 'a List \<Rightarrow> panic + ('a \<times> 'a List)" where
  "list_Remove e l =
     (case e of
        None \<Rightarrow> Inl NilDereference
      | Some e' \<Rightarrow> Inr (Value e', if in_list e' l then list_remove e' l else l))"

text \<open>\<open>PushFront\<close> inserts behind \<open>&l.root\<close>, \<open>PushBack\<close> behind \<open>l.root.prev\<close>.\<close>

definition list_PushFront :: "'a \<Rightarrow> 'a List \<Rightarrow> 'a Element \<times> 'a List" where
  "list_PushFront v l = list_insertValue v Root l"

definition list_PushBack :: "'a \<Rightarrow> 'a List \<Rightarrow> 'a Element \<times> 'a List" where
  "list_PushBack v l = list_insertValue v (root_prev l) l"

text \<open>
  \<open>func (l *List) InsertBefore(v any, mark *Element) *Element {
      if mark.list != l { return nil }
      return l.insertValue(v, mark.prev) }\<close>
  and \<open>InsertAfter\<close>, the same with \<open>l.insertValue(v, mark)\<close>.
\<close>

definition list_InsertBefore ::
  "'a \<Rightarrow> 'a Element option \<Rightarrow> 'a List \<Rightarrow> panic + ('a Element option \<times> 'a List)" where
  "list_InsertBefore v mark l =
     (case mark of
        None \<Rightarrow> Inl NilDereference
      | Some m \<Rightarrow>
          if \<not> in_list m l then Inr (None, l)
          else (let (e, l') = list_insertValue v (elem_prev m l) l in Inr (Some e, l')))"

definition list_InsertAfter ::
  "'a \<Rightarrow> 'a Element option \<Rightarrow> 'a List \<Rightarrow> panic + ('a Element option \<times> 'a List)" where
  "list_InsertAfter v mark l =
     (case mark of
        None \<Rightarrow> Inl NilDereference
      | Some m \<Rightarrow>
          if \<not> in_list m l then Inr (None, l)
          else (let (e, l') = list_insertValue v (Node m) l in Inr (Some e, l')))"

text \<open>
  \<open>func (l *List) MoveBefore(e, mark *Element) {
      if e.list != l || e == mark || mark.list != l { return }
      l.move(e, mark.prev) }\<close>
  and \<open>MoveAfter\<close>, the same with \<open>l.move(e, mark)\<close>. The conditions are evaluated from left
  to right: \<open>e\<close> is dereferenced first, \<open>mark\<close> only when the first two are false.
\<close>

definition list_MoveBefore ::
  "'a Element option \<Rightarrow> 'a Element option \<Rightarrow> 'a List \<Rightarrow> panic + 'a List" where
  "list_MoveBefore e mark l =
     (case e of
        None \<Rightarrow> Inl NilDereference
      | Some e' \<Rightarrow>
          if \<not> in_list e' l then Inr l
          else (case mark of
                  None \<Rightarrow> Inl NilDereference
                | Some m \<Rightarrow>
                    if addr e' = addr m then Inr l
                    else if \<not> in_list m l then Inr l
                    else Inr (list_move e' (elem_prev m l) l)))"

definition list_MoveAfter ::
  "'a Element option \<Rightarrow> 'a Element option \<Rightarrow> 'a List \<Rightarrow> panic + 'a List" where
  "list_MoveAfter e mark l =
     (case e of
        None \<Rightarrow> Inl NilDereference
      | Some e' \<Rightarrow>
          if \<not> in_list e' l then Inr l
          else (case mark of
                  None \<Rightarrow> Inl NilDereference
                | Some m \<Rightarrow>
                    if addr e' = addr m then Inr l
                    else if \<not> in_list m l then Inr l
                    else Inr (list_move e' (Node m) l)))"

section \<open>The values of the type parameter \<open>T\<close>\<close>

text \<open>
  \<open>OrderedSet[T comparable]\<close> is generic. What \<open>ordset.go\<close> does with a value of \<open>T\<close> is to
  compare it with \<open>==\<close> (as a key of the map), to store it in the \<open>Value any\<close> of a list
  element, and to get it back with the type assertion \<open>.(T)\<close>. Three kinds of values
  differ there:
  \<^item> \<open>Val x\<close>: a value on which \<open>==\<close> is equality and which is not a nil interface value;
  \<^item> \<open>NaN x\<close>: a value that holds a floating-point NaN (the float itself, or a struct or
    array with one inside; \<open>x\<close> is the rest of its content), which \<open>==\<close> finds different
    from every value, itself included;
  \<^item> \<open>NilIface\<close>: the nil value of \<open>T\<close>, when \<open>T\<close> is an interface type. Stored in a \<open>Value any\<close>
    it is the nil \<open>any\<close>, on which the type assertion \<open>.(T)\<close> fails; on every other value
    that was stored as a \<open>T\<close> the assertion succeeds.
  A value whose comparison panics (an interface value that holds a slice, a map or a
  function) is not a key that a map takes and is not modelled.
\<close>

datatype 'a gval = NilIface | NaN 'a | Val 'a

definition is_NaN :: "'a gval \<Rightarrow> bool" where
  "is_NaN v = (case v of NaN _ \<Rightarrow> True | _ \<Rightarrow> False)"

text \<open>Go's \<open>x == y\<close> on the values of \<open>T\<close>.\<close>

definition go_eq :: "'a gval \<Rightarrow> 'a gval \<Rightarrow> bool" where
  "go_eq x y = (x = y \<and> \<not> is_NaN x)"

text \<open>\<open>x.(T)\<close> with one result panics when the assertion fails.\<close>

definition assert_T :: "'a gval \<Rightarrow> panic + 'a gval" where
  "assert_T x = (if x = NilIface then Inl InterfaceConversion else Inr x)"

text \<open>\<open>v, ok = x.(T)\<close>: when the assertion fails, \<open>ok\<close> is false and \<open>v\<close> is the zero value
  of \<open>T\<close>. It fails on the nil value of an interface type only, and the zero value of an
  interface type is nil: in both cases \<open>v\<close> is the value that was stored.\<close>

definition assert_T_ok :: "'a gval \<Rightarrow> 'a gval \<times> bool" where
  "assert_T_ok x = (x, x \<noteq> NilIface)"

section \<open>Go's map, with keys of type \<open>T\<close>\<close>

text \<open>
  A \<open>map[T]V\<close> is a list of entries, in no order that matters. A key is found by \<open>==\<close>:
  an entry under a NaN key is never found again, neither by a lookup nor by \<open>delete\<close>, and
  every assignment under a NaN key adds an entry.
\<close>

type_synonym ('k, 'v) gomap = "('k gval \<times> 'v) list"

text \<open>\<open>v, ok := m[k]\<close>: \<open>None\<close> when \<open>ok\<close> is false.\<close>

fun map_index :: "('k, 'v) gomap \<Rightarrow> 'k gval \<Rightarrow> 'v option" where
  "map_index [] k = None"
| "map_index ((k', v) # m) k = (if go_eq k' k then Some v else map_index m k)"

text \<open>\<open>m[k] = v\<close>\<close>

fun map_assign :: "('k, 'v) gomap \<Rightarrow> 'k gval \<Rightarrow> 'v \<Rightarrow> ('k, 'v) gomap" where
  "map_assign [] k v = [(k, v)]"
| "map_assign ((k', v') # m) k v =
     (if go_eq k' k then (k', v) # m else (k', v') # map_assign m k v)"

text \<open>\<open>delete(m, k)\<close>\<close>

definition map_delete :: "('k, 'v) gomap \<Rightarrow> 'k gval \<Rightarrow> ('k, 'v) gomap" where
  "map_delete m k = filter (\<lambda>(k', v'). \<not> go_eq k' k) m"

section \<open>\<open>ordset.go\<close>\<close>

text \<open>\<open>var ErrMarkNotFound = errors.New(...)\<close>; a Go \<open>error\<close> result is an
  \<open>error option\<close>, \<open>None\<close> being nil.\<close>

datatype error = ErrMarkNotFound

text \<open>
  \<open>type OrderedSet[T comparable] struct {
      list    *list.List
      mapping map[T]*list.Element }\<close>
  The map may hold a nil pointer under a key, hence \<open>'a gval Element option\<close> as the type of
  its values.
\<close>

record 'a OrderedSet =
  list :: "'a gval List"
  mapping :: "('a, 'a gval Element option) gomap"

definition Len :: "'a OrderedSet \<Rightarrow> int" where
  "Len s = list_Len (list s)"

text \<open>\<open>_, exists := o.mapping[v]; return exists\<close>\<close>

definition Has :: "'a gval \<Rightarrow> 'a OrderedSet \<Rightarrow> bool" where
  "Has v s = (map_index (mapping s) v \<noteq> None)"



definition Append :: "'a gval \<Rightarrow> 'a OrderedSet \<Rightarrow> bool \<times> 'a OrderedSet" where
  "Append v s =
     (if Has v s then (False, s)
      else (let (e, l') = list_PushBack v (list s)
            in (True, s\<lparr>list := l', mapping := map_assign (mapping s) v (Some e)\<rparr>)))"

definition Prepend :: "'a gval \<Rightarrow> 'a OrderedSet \<Rightarrow> bool \<times> 'a OrderedSet" where
  "Prepend v s =
     (if Has v s then (False, s)
      else (let (e, l') = list_PushFront v (list s)
            in (True, s\<lparr>list := l', mapping := map_assign (mapping s) v (Some e)\<rparr>)))"

text \<open>
  \<open>func (o *OrderedSet[T]) Pop() (v T, ok bool) {
      if o.Len() > 0 {
          elem := o.list.Back()
          o.list.Remove(elem)
          v, ok = elem.Value.(T)
          delete(o.mapping, v) }
      return }\<close>
  The named results start as the zero value of \<open>T\<close> (the parameter \<open>zero\<close>) and false.
\<close>

definition Pop ::
  "'a gval \<Rightarrow> 'a OrderedSet \<Rightarrow> panic + (('a gval \<times> bool) \<times> 'a OrderedSet)" where
  "Pop zero s =
     (if Len s > 0 then
        (let elem = list_Back (list s) in
         case list_Remove elem (list s) of
           Inl p \<Rightarrow> Inl p
         | Inr (_, l') \<Rightarrow>
             (case elem of
                None \<Rightarrow> Inl NilDereference
              | Some e \<Rightarrow>
                  (let (v, ok) = assert_T_ok (Value e)
                   in Inr ((v, ok), s\<lparr>list := l', mapping := map_delete (mapping s) v\<rparr>))))
      else Inr ((zero, False), s))"

definition Shift ::
  "'a gval \<Rightarrow> 'a OrderedSet \<Rightarrow> panic + (('a gval \<times> bool) \<times> 'a OrderedSet)" where
  "Shift zero s =
     (if Len s > 0 then
        (let elem = list_Front (list s) in
         case list_Remove elem (list s) of
           Inl p \<Rightarrow> Inl p
         | Inr (_, l') \<Rightarrow>
             (case elem of
                None \<Rightarrow> Inl NilDereference
              | Some e \<Rightarrow>
                  (let (v, ok) = assert_T_ok (Value e)
                   in Inr ((v, ok), s\<lparr>list := l', mapping := map_delete (mapping s) v\<rparr>))))
      else Inr ((zero, False), s))"

text \<open>\<open>o.mapping[mark]\<close> on a key that is not found gives the zero value of the pointer
  type, nil.\<close>

definition lookup :: "'a OrderedSet \<Rightarrow> 'a gval \<Rightarrow> 'a gval Element option" where
  "lookup s k = (case map_index (mapping s) k of None \<Rightarrow> None | Some p \<Rightarrow> p)"

text \<open>
  \<open>func (o *OrderedSet[T]) Insert(v, mark T, after bool) (added bool, err error) {
      if !o.Has(mark) {
          return false, ErrMarkNotFound
      } else if o.Has(v) {
          return false, nil }
      if after {
          o.mapping[v] = o.list.InsertAfter(v, o.mapping[mark])
      } else {
          o.mapping[v] = o.list.InsertBefore(v, o.mapping[mark]) }
      return true, nil }\<close>
\<close>

definition Insert ::
  "'a gval \<Rightarrow> 'a gval \<Rightarrow> bool \<Rightarrow> 'a OrderedSet \<Rightarrow>
     panic + ((bool \<times> error option) \<times> 'a OrderedSet)" where
  "Insert v mark after s =
     (if \<not> Has mark s then Inr ((False, Some ErrMarkNotFound), s)
      else if Has v s then Inr ((False, None), s)
      else
        (case (if after then list_InsertAfter v (lookup s mark) (list s)
               else list_InsertBefore v (lookup s mark) (list s)) of
           Inl p \<Rightarrow> Inl p
         | Inr (e, l') \<Rightarrow>
             Inr ((True, None), s\<lparr>list := l', mapping := map_assign (mapping s) v e\<rparr>)))"

text \<open>
  \<open>func (o *OrderedSet[T]) Move(v, mark T, after bool) (err error) {
      if !o.Has(mark) {
          return ErrMarkNotFound }
      if elem, ok := o.mapping[v]; ok {
          if after {
              o.list.MoveAfter(elem, o.mapping[mark])
          } else {
              o.list.MoveBefore(elem, o.mapping[mark]) } }
      return nil }\<close>
\<close>

definition Move ::
  "'a gval \<Rightarrow> 'a gval \<Rightarrow> bool \<Rightarrow> 'a OrderedSet \<Rightarrow> panic + (error option \<times> 'a OrderedSet)" where
  "Move v mark after s =
     (if \<not> Has mark s then Inr (Some ErrMarkNotFound, s)
      else
        (case map_index (mapping s) v of
           Some elem \<Rightarrow>
             (case (if after then list_MoveAfter elem (lookup s mark) (list s)
                    else list_MoveBefore elem (lookup s mark) (list s)) of
                Inl p \<Rightarrow> Inl p
              | Inr l' \<Rightarrow> Inr (None, s\<lparr>list := l'\<rparr>))
         | None \<Rightarrow> Inr (None, s)))"

text \<open>
  \<open>func (o *OrderedSet[T]) Remove(v T) bool {
      if elem, ok := o.mapping[v]; ok {
          o.list.Remove(elem)
          delete(o.mapping, v)
          return true }
      return false }\<close>
\<close>

definition Remove :: "'a gval \<Rightarrow> 'a OrderedSet \<Rightarrow> panic + (bool \<times> 'a OrderedSet)" where
  "Remove v s =
     (case map_index (mapping s) v of
        Some elem \<Rightarrow>
          (case list_Remove elem (list s) of
             Inl p \<Rightarrow> Inl p
           | Inr (_, l') \<Rightarrow> Inr (True, s\<lparr>list := l', mapping := map_delete (mapping s) v\<rparr>))
      | None \<Rightarrow> Inr (False, s))"

text \<open>
  \<open>func (o *OrderedSet[T]) Range(loop func(int, T) error) error {
      i := 0
      for elem := o.list.Front(); elem != nil; elem = elem.Next() {
          err := loop(i, elem.Value.(T))
          if err != nil {
              return err }
          i++ }
      return nil }\<close>
  \<open>Front()\<close> and \<open>Next()\<close> walk the ring from its first element to its last, so the loop is
  a recursion over the ring. The argument \<open>elem.Value.(T)\<close> is evaluated before the call of
  the visitor. The visitor is a Go closure: it gets the state \<open>'s\<close> it may write to and
  returns the new state with its error, or it panics; it does not touch the set (the
  specification leaves a traversal during which the set is changed undefined).
  \<open>RangeReverse\<close> walks the ring from \<open>Back()\<close> with \<open>Prev()\<close>.
\<close>

type_synonym ('a, 'e, 's) visitor = "int \<Rightarrow> 'a gval \<Rightarrow> 's \<Rightarrow> panic + ('e option \<times> 's)"

fun range_loop ::
  "('a, 'e, 's) visitor \<Rightarrow> int \<Rightarrow> 'a gval Element list \<Rightarrow> 's \<Rightarrow> panic + ('e option \<times> 's)" where
  "range_loop loop i [] st = Inr (None, st)"
| "range_loop loop i (elem # rest) st =
     (case assert_T (Value elem) of
        Inl p \<Rightarrow> Inl p
      | Inr v \<Rightarrow>
          (case loop i v st of
             Inl p \<Rightarrow> Inl p
           | Inr (Some err, st') \<Rightarrow> Inr (Some err, st')
           | Inr (None, st') \<Rightarrow> range_loop loop (i + 1) rest st'))"

definition RangeO ::
  "('a, 'e, 's) visitor \<Rightarrow> 'a OrderedSet \<Rightarrow> 's \<Rightarrow> panic + ('e option \<times> 's)" where
  "RangeO loop s st = range_loop loop 0 (ring (list s)) st"

definition RangeReverse ::
  "('a, 'e, 's) visitor \<Rightarrow> 'a OrderedSet \<Rightarrow> 's \<Rightarrow> panic + ('e option \<times> 's)" where
  "RangeReverse loop s st = range_loop loop 0 (rev (ring (list s))) st"

text \<open>
  \<open>func (o *OrderedSet[T]) Slice() []T {
      slice := make([]T, o.Len())
      o.Range(func(i int, v T) error {
          slice[i] = v
          return nil })
      return slice }\<close>
  \<open>make\<close> fills the slice with the zero value of \<open>T\<close>; \<open>slice[i] = v\<close> panics when \<open>i\<close> is
  out of range.
\<close>

definition slice_store :: "('a, error, 'a gval list) visitor" where
  "slice_store i v slice =
     (if 0 \<le> i \<and> i < int (length slice) then Inr (None, slice[nat i := v])
      else Inl IndexOutOfRange)"

definition Slice :: "'a gval \<Rightarrow> 'a OrderedSet \<Rightarrow> panic + 'a gval list" where
  "Slice zero s =
     (case RangeO slice_store s (replicate (nat (Len s)) zero) of
        Inl p \<Rightarrow> Inl p
      | Inr (_, slice) \<Rightarrow> Inr slice)"

text \<open>
  \<open>func New[T comparable](elems ...T) *OrderedSet[T] {
      set := &OrderedSet[T]{list: list.New(), mapping: make(map[T]*list.Element)}
      for _, v := range elems {
          set.Append(v) }
      return set }\<close>
\<close>

definition New :: "'a gval list \<Rightarrow> 'a OrderedSet" where
  "New elems = fold (\<lambda>v s. snd (Append v s)) elems \<lparr>list = list_New, mapping = []\<rparr>"

section \<open>The abstraction, the invariant and the reachable sets\<close>

text \<open>The values of the ring from front to back: the members of the set in sequence order.\<close>

definition contents :: "'a OrderedSet \<Rightarrow> 'a gval list" where
  "contents s = map Value (ring (list s))"

text \<open>The invariant of the data structure: the elements of the ring have pairwise different
  addresses, all of them allocated, and a lookup in the map finds exactly the values of the
  ring that are \<open>==\<close> to themselves, each with the non-nil pointer to the element that
  holds it. An entry under a NaN key is found by no lookup and is not constrained.\<close>

definition consistent :: "'a OrderedSet \<Rightarrow> bool" where
  "consistent s \<longleftrightarrow>
     distinct (map addr (ring (list s))) \<and>
     (\<forall>e \<in> set (ring (list s)). addr e < heap_next (list s)) \<and>
     (\<forall>v p. map_index (mapping s) v = Some p \<longleftrightarrow>
        (\<exists>e \<in> set (ring (list s)). p = Some e \<and> Value e = v \<and> \<not> is_NaN v))"

text \<open>The sets a program can build: \<open>New\<close> and then any sequence of the mutating
  methods, each of which returned.\<close>

inductive reachable :: "'a OrderedSet \<Rightarrow> bool" where
  New: "reachable (New elems)"
| Append: "reachable s \<Longrightarrow> reachable (snd (Append v s))"
| Prepend: "reachable s \<Longrightarrow> reachable (snd (Prepend v s))"
| Insert: "reachable s \<Longrightarrow> Insert v mark after s = Inr (r, s') \<Longrightarrow> reachable s'"
| Move: "reachable s \<Longrightarrow> Move v mark after s = Inr (e, s') \<Longrightarrow> reachable s'"
| Remove: "reachable s \<Longrightarrow> Remove v s = Inr (b, s') \<Longrightarrow> reachable s'"
| Pop: "reachable s \<Longrightarrow> Pop zero s = Inr (p, s') \<Longrightarrow> reachable s'"
| Shift: "reachable s \<Longrightarrow> Shift zero s = Inr (p, s') \<Longrightarrow> reachable s'"

text \<open>What the claim on \<open>New\<close> says of its arguments, in its own words: the values in the
  given order, a value being dropped when one that was kept before it is \<open>==\<close> to it.
  \<open>seen\<close> are the values kept so far.\<close>

fun first_occurrences :: "'a gval list \<Rightarrow> 'a gval list \<Rightarrow> 'a gval list" where
  "first_occurrences seen [] = []"
| "first_occurrences seen (v # vs) =
     (if list_ex (\<lambda>u. go_eq u v) seen then first_occurrences seen vs
      else v # first_occurrences (seen @ [v]) vs)"

text \<open>\<open>n\<close> calls of a method one after the other, with the list of their results.\<close>

fun calls :: "('st \<Rightarrow> panic + ('r \<times> 'st)) \<Rightarrow> nat \<Rightarrow> 'st \<Rightarrow> panic + ('r list \<times> 'st)" where
  "calls f 0 s = Inr ([], s)"
| "calls f (Suc n) s =
     (case f s of
        Inl p \<Rightarrow> Inl p
      | Inr (r, s') \<Rightarrow> (case calls f n s' of Inl p \<Rightarrow> Inl p | Inr (rs, s'') \<Rightarrow> Inr (r # rs, s'')))"





section \<open>Lemmas\<close>

subsection \<open>The map, the ring and \<open>Slice\<close>\<close>

lemma go_eq_refl: "\<not> is_NaN v \<Longrightarrow> go_eq v v"
  by (simp add: go_eq_def)

lemma go_eq_NaN: "is_NaN v \<Longrightarrow> \<not> go_eq v u" "is_NaN v \<Longrightarrow> \<not> go_eq u v"
  by (auto simp: go_eq_def)

lemma map_index_NaN: "is_NaN k \<Longrightarrow> map_index m k = None"
  by (induction m) (auto simp: go_eq_def)

lemma map_index_append:
  "map_index (m @ m') k = (case map_index m k of None \<Rightarrow> map_index m' k | Some v \<Rightarrow> Some v)"
  by (induction m) auto

lemma map_index_assign:
  "map_index (map_assign m k v) k' = (if go_eq k k' then Some v else map_index m k')"
  by (induction m) (auto simp: go_eq_def)

lemma map_index_delete:
  "map_index (map_delete m k) k' = (if go_eq k k' then None else map_index m k')"
  by (induction m) (auto simp: go_eq_def map_delete_def)

lemma link_after_split:
  "addr m \<notin> addr ` set pre \<Longrightarrow> link_after e (addr m) (pre @ m # post) = pre @ m # e # post"
  by (induction pre) auto

lemma prev_from_split:
  "addr m \<notin> addr ` set pre \<Longrightarrow>
   prev_from p (addr m) (pre @ m # post) = (if pre = [] then p else Node (last pre))"
  by (induction pre arbitrary: p) auto

lemma link_after_last:
  "distinct (map addr xs) \<Longrightarrow> xs \<noteq> [] \<Longrightarrow> link_after e (addr (last xs)) xs = xs @ [e]"
proof -
  assume d: "distinct (map addr xs)" and ne: "xs \<noteq> []"
  then obtain pre m where xs: "xs = pre @ [m]" by (metis append_butlast_last_id)
  with d have "addr m \<notin> addr ` set pre" by auto
  from link_after_split[OF this, of e "[]"] xs show ?thesis by simp
qed

lemma link_after_last_append:
  assumes "distinct (map addr (pre @ rest))" "pre \<noteq> []"
  shows "link_after e (addr (last pre)) (pre @ rest) = pre @ e # rest"
proof -
  from assms(2) obtain p x where p: "pre = p @ [x]" by (metis append_butlast_last_id)
  with assms(1) have "addr x \<notin> addr ` set p" by auto
  from link_after_split[OF this, of e rest] p show ?thesis by simp
qed

lemma filter_addr_keep:
  "addr m \<notin> addr ` set xs \<Longrightarrow> filter (\<lambda>x. addr x \<noteq> addr m) xs = xs"
  by (induction xs) auto

lemma filter_addr_split:
  "addr m \<notin> addr ` set pre \<Longrightarrow> addr m \<notin> addr ` set post \<Longrightarrow>
   filter (\<lambda>x. addr x \<noteq> addr m) (pre @ m # post) = pre @ post"
  by (simp add: filter_addr_keep)

lemma slice_loop:
  "k + length es \<le> length sl \<Longrightarrow> NilIface \<notin> Value ` set es \<Longrightarrow>
   range_loop slice_store (int k) es sl
     = Inr (None, take k sl @ map Value es @ drop (k + length es) sl)"
proof (induction es arbitrary: k sl)
  case Nil
  then show ?case by simp
next
  case (Cons e es)
  from Cons.prems have k: "k < length sl" by simp
  from Cons.prems have a: "assert_T (Value e) = Inr (Value e)" by (auto simp: assert_T_def)
  have step: "slice_store (int k) (Value e) sl = Inr (None, sl[k := Value e])"
    using k by (simp add: slice_store_def)
  have "range_loop slice_store (int k) (e # es) sl
          = range_loop slice_store (int (Suc k)) es (sl[k := Value e])"
    by (simp add: a step add.commute)
  also have "\<dots> = Inr (None, take (Suc k) (sl[k := Value e]) @ map Value es
                          @ drop (Suc k + length es) (sl[k := Value e]))"
    using Cons.prems by (intro Cons.IH) auto
  also have "take (Suc k) (sl[k := Value e]) = take k sl @ [Value e]"
    using k by (simp add: take_Suc_conv_app_nth)
  also have "drop (Suc k + length es) (sl[k := Value e]) = drop (Suc k + length es) sl"
    by simp
  finally show ?case by simp
qed


lemma Slice_contents:
  "NilIface \<notin> set (contents s) \<Longrightarrow> Slice zero s = Inr (contents s)"
  using slice_loop[of 0 "ring (list s)" "replicate (length (ring (list s))) zero"]
  by (simp add: Slice_def RangeO_def Len_def list_Len_def contents_def)




subsection \<open>The invariant\<close>

lemma inv_index:
  "consistent s \<Longrightarrow>
   map_index (mapping s) v = Some p \<longleftrightarrow>
     (\<exists>e \<in> set (ring (list s)). p = Some e \<and> Value e = v \<and> \<not> is_NaN v)"
  by (simp add: consistent_def)

lemma inv_Has: "consistent s \<Longrightarrow> Has v s \<longleftrightarrow> v \<in> set (contents s) \<and> \<not> is_NaN v"
proof -
  assume w: "consistent s"
  show ?thesis
  proof
    assume "Has v s"
    then obtain p where "map_index (mapping s) v = Some p" by (auto simp: Has_def)
    with inv_index[OF w] show "v \<in> set (contents s) \<and> \<not> is_NaN v" by (auto simp: contents_def)
  next
    assume "v \<in> set (contents s) \<and> \<not> is_NaN v"
    then obtain e where "e \<in> set (ring (list s))" "Value e = v" "\<not> is_NaN v"
      by (auto simp: contents_def)
    with inv_index[OF w, of v "Some e"] show "Has v s" by (auto simp: Has_def)
  qed
qed

lemma inv_mapping:
  "consistent s \<Longrightarrow> e \<in> set (ring (list s)) \<Longrightarrow> \<not> is_NaN (Value e) \<Longrightarrow>
   map_index (mapping s) (Value e) = Some (Some e)"
  using inv_index[of s "Value e" "Some e"] by blast

lemma inv_lookup:
  "consistent s \<Longrightarrow> e \<in> set (ring (list s)) \<Longrightarrow> \<not> is_NaN (Value e) \<Longrightarrow>
   lookup s (Value e) = Some e"
  by (simp add: lookup_def inv_mapping)

lemma inv_in_list: "e \<in> set (ring (list s)) \<Longrightarrow> in_list e (list s)"
  by (simp add: in_list_def)

lemma inv_unique:
  assumes "consistent s" "e \<in> set (ring (list s))" "e' \<in> set (ring (list s))"
    "Value e = Value e'" "\<not> is_NaN (Value e)"
  shows "e = e'"
  using inv_mapping[OF assms(1,2,5)] inv_mapping[OF assms(1,3)] assms(4,5) by simp

lemma inv_Has_split:
  assumes "consistent s" "Has v s"
  obtains pre m post where "ring (list s) = pre @ m # post" "Value m = v"
    "addr m \<notin> addr ` set pre" "addr m \<notin> addr ` set post"
    "v \<notin> Value ` set pre" "v \<notin> Value ` set post" "\<not> is_NaN v"
proof -
  from assms have v: "v \<in> Value ` set (ring (list s))" "\<not> is_NaN v"
    by (simp_all add: inv_Has contents_def)
  then obtain m where m: "m \<in> set (ring (list s))" "Value m = v" by auto
  then obtain pre post where r: "ring (list s) = pre @ m # post" by (meson split_list)
  from assms(1) have "distinct (map addr (ring (list s)))" by (simp add: consistent_def)
  with r have a: "addr m \<notin> addr ` set pre" "addr m \<notin> addr ` set post" by auto
  have "x \<noteq> m" if "x \<in> set pre \<union> set post" for x using that a by auto
  moreover have "x = m" if "x \<in> set pre \<union> set post" "Value x = v" for x
    using inv_unique[OF assms(1), of x m] that r m v(2) by auto
  ultimately have "v \<notin> Value ` set pre" "v \<notin> Value ` set post" by auto
  with r m a v(2) show thesis using that by blast
qed

lemma inv_linkI:
  assumes w: "consistent s" and r: "ring (list s) = pre @ post" and v: "\<not> Has v s"
    and e: "addr e = heap_next (list s)" "Value e = v"
    and r': "ring (list s') = pre @ e # post"
    and h': "heap_next (list s') = Suc (heap_next (list s))"
    and m': "mapping s' = map_assign (mapping s) v (Some e)"
  shows "consistent s'"
proof -
  from w v have nv: "\<And>x. x \<in> set (ring (list s)) \<Longrightarrow> Value x = v \<Longrightarrow> is_NaN v"
    by (auto simp: inv_Has contents_def)
  from w have lt: "\<forall>x \<in> set (ring (list s)). addr x < heap_next (list s)"
    by (simp add: consistent_def)
  then have na: "addr e \<notin> addr ` set (ring (list s))" using e by auto
  from w have d: "distinct (map addr (ring (list s)))" by (simp add: consistent_def)
  note m = inv_index[OF w]
  show ?thesis
    unfolding consistent_def
  proof (intro conjI allI)
    show "distinct (map addr (ring (list s')))" using d na r r' by auto
    show "\<forall>x\<in>set (ring (list s')). addr x < heap_next (list s')"
      using lt r e r' h' by (auto simp: less_Suc_eq)
    fix u p
    show "map_index (mapping s') u = Some p \<longleftrightarrow>
            (\<exists>x \<in> set (ring (list s')). p = Some x \<and> Value x = u \<and> \<not> is_NaN u)"
    proof (cases "go_eq v u")
      case True
      then have uv: "u = v" "\<not> is_NaN v" by (auto simp: go_eq_def)
      have "map_index (mapping s') u = Some (Some e)" using True by (simp add: m' map_index_assign)
      moreover have "(\<exists>x \<in> set (ring (list s')). p = Some x \<and> Value x = u \<and> \<not> is_NaN u)
                       \<longleftrightarrow> p = Some e"
        using nv uv e r r' by auto
      ultimately show ?thesis by auto
    next
      case False
      then have ne: "u = v \<Longrightarrow> is_NaN u" by (auto simp: go_eq_def)
      have "map_index (mapping s') u = map_index (mapping s) u"
        using False by (simp add: m' map_index_assign)
      moreover have "(\<exists>x \<in> set (ring (list s')). p = Some x \<and> Value x = u \<and> \<not> is_NaN u)
                       \<longleftrightarrow> (\<exists>x \<in> set (ring (list s)). p = Some x \<and> Value x = u \<and> \<not> is_NaN u)"
        using ne e r r' by auto
      ultimately show ?thesis using m by simp
    qed
  qed
qed

lemma inv_unlinkI:
  assumes w: "consistent s" and r: "ring (list s) = pre @ x # post"
    and r': "ring (list s') = pre @ post"
    and h': "heap_next (list s') = heap_next (list s)"
    and m': "mapping s' = map_delete (mapping s) (Value x)"
  shows "consistent s'"
proof -
  from w have lt: "\<forall>x \<in> set (ring (list s)). addr x < heap_next (list s)"
    by (simp add: consistent_def)
  from w have d: "distinct (map addr (ring (list s)))" by (simp add: consistent_def)
  note m = inv_index[OF w]
  have nx: "y \<noteq> x" if "y \<in> set pre \<union> set post" for y using that d r by auto
  have ux: "y = x" if "y \<in> set pre \<union> set post" "Value y = Value x" "\<not> is_NaN (Value x)" for y
    using inv_unique[OF w, of y x] that r by auto
  show ?thesis
    unfolding consistent_def
  proof (intro conjI allI)
    show "distinct (map addr (ring (list s')))" using d r r' by auto
    show "\<forall>x\<in>set (ring (list s')). addr x < heap_next (list s')"
      using lt r r' h' by auto
    fix u p
    show "map_index (mapping s') u = Some p \<longleftrightarrow>
            (\<exists>y \<in> set (ring (list s')). p = Some y \<and> Value y = u \<and> \<not> is_NaN u)"
    proof (cases "go_eq (Value x) u")
      case True
      then have uv: "u = Value x" "\<not> is_NaN (Value x)" by (auto simp: go_eq_def)
      have "map_index (mapping s') u = None" using True by (simp add: m' map_index_delete)
      moreover have "\<not> (\<exists>y \<in> set (ring (list s')). p = Some y \<and> Value y = u \<and> \<not> is_NaN u)"
        using nx ux uv r' by auto
      ultimately show ?thesis by simp
    next
      case False
      then have ne: "u = Value x \<Longrightarrow> is_NaN u" by (auto simp: go_eq_def)
      have "map_index (mapping s') u = map_index (mapping s) u"
        using False by (simp add: m' map_index_delete)
      moreover have "(\<exists>y \<in> set (ring (list s')). p = Some y \<and> Value y = u \<and> \<not> is_NaN u)
                       \<longleftrightarrow> (\<exists>y \<in> set (ring (list s)). p = Some y \<and> Value y = u \<and> \<not> is_NaN u)"
        using ne r r' by auto
      ultimately show ?thesis using m by simp
    qed
  qed
qed

lemma inv_reorderI:
  assumes w: "consistent s" and st: "set (ring (list s')) = set (ring (list s))"
    and len: "length (ring (list s')) = length (ring (list s))"
    and h': "heap_next (list s') = heap_next (list s)"
    and m': "mapping s' = mapping s"
  shows "consistent s'"
proof -
  have "card (set (map addr (ring (list s')))) = card (set (map addr (ring (list s))))"
    using st by simp
  also have "\<dots> = length (map addr (ring (list s)))"
    using w by (intro distinct_card) (simp add: consistent_def)
  also have "\<dots> = length (map addr (ring (list s')))" using len by simp
  finally have "distinct (map addr (ring (list s')))" by (rule card_distinct)
  with w show ?thesis
    unfolding consistent_def using st h' m' by auto
qed

subsection \<open>What the methods do to the ring and to the map\<close>

lemma inv_empty: "consistent \<lparr>list = list_New, mapping = []\<rparr>"
  by (simp add: consistent_def list_New_def)

lemma Append_old: "Has v s \<Longrightarrow> Append v s = (False, s)"
  by (simp add: Append_def)

lemma Prepend_old: "Has v s \<Longrightarrow> Prepend v s = (False, s)"
  by (simp add: Prepend_def)

lemma Append_new:
  assumes "consistent s" "\<not> Has v s"
  shows "Append v s =
    (True, s\<lparr>list := (list s)\<lparr>ring := ring (list s) @ [\<lparr>addr = heap_next (list s), Value = v\<rparr>],
                      heap_next := Suc (heap_next (list s))\<rparr>,
             mapping := map_assign (mapping s) v (Some \<lparr>addr = heap_next (list s), Value = v\<rparr>)\<rparr>)"
proof -
  from assms(1) have d: "distinct (map addr (ring (list s)))" by (simp add: consistent_def)
  show ?thesis
  proof (cases "ring (list s)")
    case Nil
    then show ?thesis using assms(2)
      by (simp add: Append_def list_PushBack_def list_insertValue_def list_insert_def root_prev_def Let_def)
  next
    case (Cons x xs)
    then have ne: "ring (list s) \<noteq> []" by simp
    from link_after_last[OF d ne] Cons show ?thesis using assms(2)
      by (simp add: Append_def list_PushBack_def list_insertValue_def list_insert_def root_prev_def Let_def)
  qed
qed

lemma Prepend_new:
  assumes "\<not> Has v s"
  shows "Prepend v s =
    (True, s\<lparr>list := (list s)\<lparr>ring := \<lparr>addr = heap_next (list s), Value = v\<rparr> # ring (list s),
                      heap_next := Suc (heap_next (list s))\<rparr>,
             mapping := map_assign (mapping s) v (Some \<lparr>addr = heap_next (list s), Value = v\<rparr>)\<rparr>)"
  using assms
  by (simp add: Prepend_def list_PushFront_def list_insertValue_def list_insert_def Let_def)

lemma inv_Append: "consistent s \<Longrightarrow> consistent (snd (Append v s))"
proof (cases "Has v s")
  case True
  assume "consistent s" then show ?thesis using True by (simp add: Append_old)
next
  case False
  assume w: "consistent s"
  show ?thesis
    by (rule inv_linkI[OF w _ False, where pre = "ring (list s)" and post = "[]"
          and e = "\<lparr>addr = heap_next (list s), Value = v\<rparr>"])
       (simp_all add: Append_new[OF w False])
qed

lemma contents_Append:
  "consistent s \<Longrightarrow> contents (snd (Append v s)) = (if Has v s then contents s else contents s @ [v])"
  by (simp add: Append_old Append_new contents_def)

lemma inv_Prepend: "consistent s \<Longrightarrow> consistent (snd (Prepend v s))"
proof (cases "Has v s")
  case True
  assume "consistent s" then show ?thesis using True by (simp add: Prepend_old)
next
  case False
  assume w: "consistent s"
  show ?thesis
    by (rule inv_linkI[OF w _ False, where pre = "[]" and post = "ring (list s)"
          and e = "\<lparr>addr = heap_next (list s), Value = v\<rparr>"])
       (simp_all add: Prepend_new[OF False])
qed

lemma contents_Prepend:
  "contents (snd (Prepend v s)) = (if Has v s then contents s else v # contents s)"
  by (simp add: Prepend_old Prepend_new contents_def)

lemma inv_fold_Append: "consistent s \<Longrightarrow> consistent (fold (\<lambda>v s. snd (Append v s)) vs s)"
  by (induction vs arbitrary: s) (simp_all add: inv_Append)

lemma inv_New: "consistent (New elems)"
  unfolding New_def by (rule inv_fold_Append[OF inv_empty])

lemma inv_ring_split:
  assumes "consistent s" "ring (list s) = pre @ m # post"
  shows "addr m \<notin> addr ` set pre" "addr m \<notin> addr ` set post" "distinct (map addr (pre @ post))"
    "in_list m (list s)"
    "\<not> is_NaN (Value m) \<Longrightarrow> map_index (mapping s) (Value m) = Some (Some m)"
    "\<not> is_NaN (Value m) \<Longrightarrow> lookup s (Value m) = Some m"
    "\<not> is_NaN (Value m) \<Longrightarrow> Has (Value m) s"
proof -
  from assms have d: "distinct (map addr (pre @ m # post))" by (simp add: consistent_def)
  then show "addr m \<notin> addr ` set pre" "addr m \<notin> addr ` set post"
    "distinct (map addr (pre @ post))" by auto
  have m: "m \<in> set (ring (list s))" using assms(2) by simp
  show "in_list m (list s)" by (rule inv_in_list[OF m])
  assume n: "\<not> is_NaN (Value m)"
  show "map_index (mapping s) (Value m) = Some (Some m)" by (rule inv_mapping[OF assms(1) m n])
  then show "Has (Value m) s" by (simp add: Has_def)
  show "lookup s (Value m) = Some m" by (rule inv_lookup[OF assms(1) m n])
qed

lemma Remove_absent: "\<not> Has v s \<Longrightarrow> Remove v s = Inr (False, s)"
  by (simp add: Remove_def Has_def)

lemma Remove_member:
  assumes w: "consistent s" and r: "ring (list s) = pre @ m # post" and n: "\<not> is_NaN (Value m)"
  shows "Remove (Value m) s =
    Inr (True, s\<lparr>list := (list s)\<lparr>ring := pre @ post\<rparr>,
                 mapping := map_delete (mapping s) (Value m)\<rparr>)"
  using inv_ring_split[OF w r] r n
  by (simp add: Remove_def list_Remove_def list_remove_def filter_addr_keep)

lemma Pop_empty: "ring (list s) = [] \<Longrightarrow> Pop zero s = Inr ((zero, False), s)"
  by (simp add: Pop_def Len_def list_Len_def)

lemma Shift_empty: "ring (list s) = [] \<Longrightarrow> Shift zero s = Inr ((zero, False), s)"
  by (simp add: Shift_def Len_def list_Len_def)

lemma Pop_last:
  assumes w: "consistent s" and r: "ring (list s) = pre @ [m]"
  shows "Pop zero s =
    Inr ((Value m, Value m \<noteq> NilIface),
         s\<lparr>list := (list s)\<lparr>ring := pre\<rparr>, mapping := map_delete (mapping s) (Value m)\<rparr>)"
  using inv_ring_split(1-4)[OF w r] r
  by (simp add: Pop_def Len_def list_Len_def list_Back_def list_Remove_def list_remove_def
      filter_addr_keep assert_T_ok_def)

lemma Shift_first:
  assumes w: "consistent s" and r: "ring (list s) = m # post"
  shows "Shift zero s =
    Inr ((Value m, Value m \<noteq> NilIface),
         s\<lparr>list := (list s)\<lparr>ring := post\<rparr>, mapping := map_delete (mapping s) (Value m)\<rparr>)"
  using inv_ring_split(1-4)[of s "[]" m post] w r
  by (simp add: Shift_def Len_def list_Len_def list_Front_def list_Remove_def list_remove_def
      filter_addr_keep assert_T_ok_def)

lemma Insert_no_mark: "\<not> Has mark s \<Longrightarrow> Insert v mark after s = Inr ((False, Some ErrMarkNotFound), s)"
  by (simp add: Insert_def)

lemma Insert_member: "Has mark s \<Longrightarrow> Has v s \<Longrightarrow> Insert v mark after s = Inr ((False, None), s)"
  by (simp add: Insert_def)

lemma Insert_after_new:
  assumes w: "consistent s" and r: "ring (list s) = pre @ m # post" and v: "\<not> Has v s"
    and n: "\<not> is_NaN (Value m)"
  shows "Insert v (Value m) True s =
    Inr ((True, None),
         s\<lparr>list := (list s)\<lparr>ring := pre @ m # \<lparr>addr = heap_next (list s), Value = v\<rparr> # post,
                           heap_next := Suc (heap_next (list s))\<rparr>,
           mapping := map_assign (mapping s) v (Some \<lparr>addr = heap_next (list s), Value = v\<rparr>)\<rparr>)"
  using inv_ring_split[OF w r] r v n
  by (simp add: Insert_def list_InsertAfter_def list_insertValue_def list_insert_def Let_def
      link_after_split)

lemma Insert_before_new:
  assumes w: "consistent s" and r: "ring (list s) = pre @ m # post" and v: "\<not> Has v s"
    and n: "\<not> is_NaN (Value m)"
  shows "Insert v (Value m) False s =
    Inr ((True, None),
         s\<lparr>list := (list s)\<lparr>ring := pre @ \<lparr>addr = heap_next (list s), Value = v\<rparr> # m # post,
                           heap_next := Suc (heap_next (list s))\<rparr>,
           mapping := map_assign (mapping s) v (Some \<lparr>addr = heap_next (list s), Value = v\<rparr>)\<rparr>)"
proof -
  note f = inv_ring_split[OF w r]
  from w r have d: "distinct (map addr (pre @ m # post))" by (simp add: consistent_def)
  have p: "elem_prev m (list s) = (if pre = [] then Root else Node (last pre))"
    using f(1) r by (simp add: elem_prev_def prev_from_split)
  show ?thesis
  proof (cases "pre = []")
    case True
    then show ?thesis using f r v p n
      by (simp add: Insert_def list_InsertBefore_def list_insertValue_def list_insert_def Let_def)
  next
    case False
    from link_after_last_append[OF d False] False show ?thesis using f r v p n
      by (simp add: Insert_def list_InsertBefore_def list_insertValue_def list_insert_def Let_def)
  qed
qed

lemma Move_no_mark: "\<not> Has mark s \<Longrightarrow> Move v mark after s = Inr (Some ErrMarkNotFound, s)"
  by (simp add: Move_def)

lemma Move_absent: "Has mark s \<Longrightarrow> \<not> Has v s \<Longrightarrow> Move v mark after s = Inr (None, s)"
  by (simp add: Move_def Has_def)

lemma Move_self:
  assumes w: "consistent s" and v: "Has v s"
  shows "Move v v after s = Inr (None, s)"
proof -
  from inv_Has_split[OF w v] obtain pre m post where
    r: "ring (list s) = pre @ m # post" and m: "Value m = v" and n: "\<not> is_NaN v" by metis
  from inv_ring_split[OF w r] m v n show ?thesis
    by (simp add: Move_def list_MoveAfter_def list_MoveBefore_def)
qed

lemma Move_after_member:
  assumes w: "consistent s" and r: "ring (list s) = A @ e # B" and ab: "A @ B = pre @ m # post"
    and n: "\<not> is_NaN (Value e)" "\<not> is_NaN (Value m)"
  shows "Move (Value e) (Value m) True s =
    Inr (None, s\<lparr>list := (list s)\<lparr>ring := pre @ m # e # post\<rparr>\<rparr>)"
proof -
  note fe = inv_ring_split[OF w r]
  have "m \<in> set (A @ B)" using ab by simp
  then have mr: "m \<in> set (ring (list s))" using r by auto
  have ne: "addr e \<noteq> addr m" using fe(1,2) \<open>m \<in> set (A @ B)\<close> by auto
  from fe(3) ab have "distinct (map addr (pre @ m # post))" by simp
  then have np: "addr m \<notin> addr ` set pre" by auto
  have rm: "filter (\<lambda>x. addr x \<noteq> addr e) (ring (list s)) = pre @ m # post"
    using r fe(1,2) ab filter_addr_split[of e A B] by simp
  show ?thesis
    using fe(4) fe(5,7)[OF n(1)] inv_lookup[OF w mr n(2)] inv_in_list[OF mr]
      inv_mapping[OF w mr n(2)] ne rm link_after_split[OF np, of e post]
    by (simp add: Move_def Has_def list_MoveAfter_def list_move_def list_insert_def list_remove_def)
qed

lemma Move_before_member:
  assumes w: "consistent s" and r: "ring (list s) = A @ e # B" and ab: "A @ B = pre @ m # post"
    and n: "\<not> is_NaN (Value e)" "\<not> is_NaN (Value m)"
  shows "Move (Value e) (Value m) False s =
    Inr (None, s\<lparr>list := (list s)\<lparr>ring := pre @ e # m # post\<rparr>\<rparr>)"
proof -
  note fe = inv_ring_split[OF w r]
  have mab: "m \<in> set (A @ B)" using ab by simp
  then have mr: "m \<in> set (ring (list s))" using r by auto
  have ne: "addr e \<noteq> addr m" using fe(1,2) mab by auto
  from fe(3) ab have dp: "distinct (map addr (pre @ m # post))" by simp
  then have np: "addr m \<notin> addr ` set pre" by auto
  have rm: "filter (\<lambda>x. addr x \<noteq> addr e) (ring (list s)) = pre @ m # post"
    using r fe(1,2) ab filter_addr_split[of e A B] by simp
  have guard: "map_index (mapping s) (Value e) = Some (Some e)" "Has (Value m) s"
    "lookup s (Value m) = Some m" "in_list e (list s)" "in_list m (list s)"
    using fe(4) fe(5)[OF n(1)] inv_lookup[OF w mr n(2)] inv_in_list[OF mr] inv_mapping[OF w mr n(2)]
    by (simp_all add: Has_def)
  have run: "Move (Value e) (Value m) False s = Inr (None, s\<lparr>list := list_move e (elem_prev m (list s)) (list s)\<rparr>)"
    using guard ne by (simp add: Move_def list_MoveBefore_def)
  have "(A = pre \<and> B = m # post) \<or> (\<exists>us. A = pre @ m # us \<and> post = us @ B)
      \<or> (\<exists>us. us \<noteq> [] \<and> pre = A @ us \<and> B = us @ m # post)"
  proof -
    from ab obtain us where
      "(A = pre @ us \<and> us @ B = m # post) \<or> (A @ us = pre \<and> B = us @ m # post)"
      by (auto simp: append_eq_append_conv2)
    then show ?thesis by (cases us) auto
  qed
  then consider (adj) "A = pre" "B = m # post"
    | (left) us where "A = pre @ m # us" "post = us @ B"
    | (right) us where "us \<noteq> []" "pre = A @ us" "B = us @ m # post"
    by blast
  then have "list_move e (elem_prev m (list s)) (list s) = (list s)\<lparr>ring := pre @ e # m # post\<rparr>"
  proof cases
    case adj
    have "addr m \<notin> addr ` set (pre @ [e])" using np ne by auto
    from prev_from_split[OF this, of Root post] have "elem_prev m (list s) = Node e"
      using r adj by (simp add: elem_prev_def)
    then show ?thesis using r adj by (simp add: list_move_def)
  next
    case left
    have p: "elem_prev m (list s) = (if pre = [] then Root else Node (last pre))"
      using prev_from_split[OF np, of Root "us @ e # B"] r left by (simp add: elem_prev_def)
    show ?thesis
    proof (cases "pre = []")
      case True
      then show ?thesis using p rm by (simp add: list_move_def list_insert_def list_remove_def)
    next
      case False
      then have "last pre \<in> set A" using left by simp
      then have "addr e \<noteq> addr (last pre)" using fe(1) by auto
      then show ?thesis using p rm False link_after_last_append[OF dp False, of e]
        by (simp add: list_move_def list_insert_def list_remove_def)
    qed
  next
    case right
    have "addr m \<notin> addr ` set (A @ e # us)" using np ne right by auto
    from prev_from_split[OF this, of Root post]
    have p: "elem_prev m (list s) = Node (last pre)"
      using r right by (simp add: elem_prev_def)
    have False: "pre \<noteq> []" using right by simp
    have "last pre \<in> set B" using right by simp
    then have "addr e \<noteq> addr (last pre)" using fe(2) by auto
    then show ?thesis using p rm False link_after_last_append[OF dp False, of e]
      by (simp add: list_move_def list_insert_def list_remove_def)
  qed
  with run show ?thesis by simp
qed

subsection \<open>Every method keeps the invariant\<close>

lemma inv_ring_cases:
  assumes "consistent s" "Has v s"
  obtains pre m post where "ring (list s) = pre @ m # post" "Value m = v" "\<not> is_NaN v"
  using inv_Has_split[OF assms] by metis

lemma inv_Insert:
  assumes w: "consistent s" and i: "Insert v mark after s = Inr (r, s')"
  shows "consistent s'"
proof (cases "Has mark s \<and> \<not> Has v s")
  case False
  then have "s' = s" using i by (auto simp: Insert_def split: if_splits)
  then show ?thesis using w by simp
next
  case True
  then obtain pre m post where r: "ring (list s) = pre @ m # post" and m: "Value m = mark"
    and n: "\<not> is_NaN mark"
    using inv_ring_cases[OF w] by metis
  from n m have n': "\<not> is_NaN (Value m)" by simp
  from True have nv: "\<not> Has v s" by simp
  show ?thesis
  proof (cases after)
    case True
    with i m Insert_after_new[OF w r nv n'] have s': "s' = s\<lparr>list := (list s)\<lparr>ring := pre @ m # \<lparr>addr = heap_next (list s), Value = v\<rparr> # post,
                           heap_next := Suc (heap_next (list s))\<rparr>,
           mapping := map_assign (mapping s) v (Some \<lparr>addr = heap_next (list s), Value = v\<rparr>)\<rparr>" by simp
    show ?thesis
      by (rule inv_linkI[OF w _ nv, where pre = "pre @ [m]" and post = post
            and e = "\<lparr>addr = heap_next (list s), Value = v\<rparr>"]) (simp_all add: r s')
  next
    case False
    with i m Insert_before_new[OF w r nv n'] have s': "s' = s\<lparr>list := (list s)\<lparr>ring := pre @ \<lparr>addr = heap_next (list s), Value = v\<rparr> # m # post,
                           heap_next := Suc (heap_next (list s))\<rparr>,
           mapping := map_assign (mapping s) v (Some \<lparr>addr = heap_next (list s), Value = v\<rparr>)\<rparr>" by simp
    show ?thesis
      by (rule inv_linkI[OF w _ nv, where pre = pre and post = "m # post"
            and e = "\<lparr>addr = heap_next (list s), Value = v\<rparr>"]) (simp_all add: r s')
  qed
qed

lemma inv_Remove:
  assumes w: "consistent s" and i: "Remove v s = Inr (b, s')"
  shows "consistent s'"
proof (cases "Has v s")
  case False
  then show ?thesis using i w by (simp add: Remove_absent)
next
  case True
  then obtain pre m post where r: "ring (list s) = pre @ m # post" and m: "Value m = v"
    and n: "\<not> is_NaN v"
    using inv_ring_cases[OF w] by metis
  from n m have n': "\<not> is_NaN (Value m)" by simp
  with i Remove_member[OF w r n'] m
  have s': "s' = s\<lparr>list := (list s)\<lparr>ring := pre @ post\<rparr>, mapping := map_delete (mapping s) (Value m)\<rparr>"
    by simp
  show ?thesis by (rule inv_unlinkI[OF w r]) (simp_all add: s')
qed

lemma inv_Pop:
  assumes w: "consistent s" and i: "Pop zero s = Inr (p, s')"
  shows "consistent s'"
proof (cases "ring (list s)" rule: rev_cases)
  case Nil
  then show ?thesis using i w by (simp add: Pop_empty)
next
  case (snoc pre m)
  with i Pop_last[OF w snoc]
  have s': "s' = s\<lparr>list := (list s)\<lparr>ring := pre\<rparr>, mapping := map_delete (mapping s) (Value m)\<rparr>"
    by simp
  show ?thesis by (rule inv_unlinkI[OF w, where pre = pre and x = m and post = "[]"]) (simp_all add: s' snoc)
qed

lemma inv_Shift:
  assumes w: "consistent s" and i: "Shift zero s = Inr (p, s')"
  shows "consistent s'"
proof (cases "ring (list s)")
  case Nil
  then show ?thesis using i w by (simp add: Shift_empty)
next
  case (Cons m post)
  with i Shift_first[OF w Cons]
  have s': "s' = s\<lparr>list := (list s)\<lparr>ring := post\<rparr>, mapping := map_delete (mapping s) (Value m)\<rparr>"
    by simp
  show ?thesis by (rule inv_unlinkI[OF w, where pre = "[]" and x = m and post = post]) (simp_all add: s' Cons)
qed

lemma consistent_member_split:
  assumes w: "consistent s" and v: "Has v s"
  obtains pre m post where "ring (list s) = pre @ m # post" "Value m = v"
    "contents s = map Value pre @ v # map Value post" "v \<notin> set (map Value pre)"
    "v \<notin> set (map Value post)" "\<not> is_NaN v"
proof -
  from inv_Has_split[OF w v] obtain pre m post where
    r: "ring (list s) = pre @ m # post" and m: "Value m = v"
    and n: "v \<notin> Value ` set pre" "v \<notin> Value ` set post" "\<not> is_NaN v" by metis
  have "contents s = map Value pre @ v # map Value post" using r m by (simp add: contents_def)
  with r m n show thesis using that by simp
qed

lemma remove1_split: "v \<notin> set xs \<Longrightarrow> remove1 v (xs @ v # ys) = xs @ ys"
  by (induction xs) auto

lemma Move_member_contents:
  assumes w: "consistent s" and v: "Has v s" and k: "Has mark s" and ne: "v \<noteq> mark"
  obtains pre post s' where "remove1 v (contents s) = pre @ mark # post"
    "Move v mark after s = Inr (None, s')"
    "contents s' = (if after then pre @ mark # v # post else pre @ v # mark # post)"
    "mapping s' = mapping s" "set (ring (list s')) = set (ring (list s))"
    "length (ring (list s')) = length (ring (list s))"
    "heap_next (list s') = heap_next (list s)"
proof -
  from consistent_member_split[OF w v] obtain A x B where
    r: "ring (list s) = A @ x # B" and x: "Value x = v"
    and c: "contents s = map Value A @ v # map Value B" and n: "v \<notin> set (map Value A)"
    and nv: "\<not> is_NaN v" by metis
  have rem: "remove1 v (contents s) = map Value (A @ B)" using c n by (simp add: remove1_split)
  from k have km: "mark \<in> set (contents s)" "\<not> is_NaN mark" using w by (simp_all add: inv_Has)
  then have "mark \<in> Value ` set (A @ B)" using c ne by auto
  then obtain m where "m \<in> set (A @ B)" and m: "Value m = mark" by auto
  then obtain pre post where ab: "A @ B = pre @ m # post" by (meson split_list)
  have nn: "\<not> is_NaN (Value x)" "\<not> is_NaN (Value m)" using x m nv km by simp_all
  define r' where "r' = (if after then pre @ m # x # post else pre @ x # m # post)"
  have mv: "Move v mark after s = Inr (None, s\<lparr>list := (list s)\<lparr>ring := r'\<rparr>\<rparr>)"
    using Move_after_member[OF w r ab nn] Move_before_member[OF w r ab nn] x m
    by (cases after) (simp_all add: r'_def)
  have "set (pre @ m # post) = set (A @ B)" using ab by simp
  then have st: "set r' = set (ring (list s))" using r by (auto simp: r'_def)
  have "length (pre @ m # post) = length (A @ B)" using ab by simp
  then have len: "length r' = length (ring (list s))" using r by (auto simp: r'_def)
  have cs: "contents (s\<lparr>list := (list s)\<lparr>ring := r'\<rparr>\<rparr>) =
      (if after then map Value pre @ mark # v # map Value post
       else map Value pre @ v # mark # map Value post)"
    using x m by (simp add: contents_def r'_def)
  have "remove1 v (contents s) = map Value pre @ mark # map Value post"
    using rem ab m by simp
  from that[OF this mv cs] st len show thesis by simp
qed

lemma inv_Move:
  assumes w: "consistent s" and i: "Move v mark after s = Inr (e, s')"
  shows "consistent s'"
proof (cases "Has mark s \<and> Has v s \<and> v \<noteq> mark")
  case False
  then consider "\<not> Has mark s" | "Has mark s" "\<not> Has v s" | "Has v s" "v = mark" by blast
  then have "s' = s"
  proof cases
    case 1
    then show ?thesis using i by (simp add: Move_no_mark)
  next
    case 2
    then show ?thesis using i by (simp add: Move_absent)
  next
    case 3
    then show ?thesis using i Move_self[OF w, of v after] by simp
  qed
  then show ?thesis using w by simp
next
  case True
  from Move_member_contents[of s v mark after] w True obtain s1 where
    "Move v mark after s = Inr (None, s1)" "mapping s1 = mapping s"
    "set (ring (list s1)) = set (ring (list s))" "length (ring (list s1)) = length (ring (list s))"
    "heap_next (list s1) = heap_next (list s)" by metis
  with i show ?thesis by (intro inv_reorderI[OF w]) simp_all
qed

lemma reachable_consistent: "reachable s \<Longrightarrow> consistent s"
proof (induction rule: reachable.induct)
  case (New elems)
  show ?case by (rule inv_New)
qed (auto intro: inv_Append inv_Prepend inv_Insert inv_Move inv_Remove inv_Pop inv_Shift)

subsection \<open>\<open>Insert\<close> on the values of the set\<close>

lemma Insert_new_contents:
  assumes w: "consistent s" and r: "ring (list s) = pre @ m # post" and v: "\<not> Has v s"
    and n: "\<not> is_NaN (Value m)"
  obtains s' e where "Insert v (Value m) after s = Inr ((True, None), s')"
    "contents s' = (if after then map Value pre @ Value m # v # map Value post
                    else map Value pre @ v # Value m # map Value post)"
    "Value e = v" "addr e \<notin> addr ` set (ring (list s))"
    "mapping s' = map_assign (mapping s) v (Some e)"
    "set (ring (list s')) = insert e (set (ring (list s)))"
proof -
  let ?e = "\<lparr>addr = heap_next (list s), Value = v\<rparr>"
  from w have "\<forall>x \<in> set (ring (list s)). addr x < heap_next (list s)" by (simp add: consistent_def)
  then have fresh: "addr ?e \<notin> addr ` set (ring (list s))" by auto
  show thesis
  proof (cases after)
    case True
    show ?thesis
      by (rule that[OF _ _ _ fresh, where s' = "s\<lparr>list := (list s)\<lparr>ring := pre @ m # ?e # post,
                           heap_next := Suc (heap_next (list s))\<rparr>,
           mapping := map_assign (mapping s) v (Some ?e)\<rparr>"])
        (use True r Insert_after_new[OF w r v n] in \<open>auto simp: contents_def\<close>)
  next
    case False
    show ?thesis
      by (rule that[OF _ _ _ fresh, where s' = "s\<lparr>list := (list s)\<lparr>ring := pre @ ?e # m # post,
                           heap_next := Suc (heap_next (list s))\<rparr>,
           mapping := map_assign (mapping s) v (Some ?e)\<rparr>"])
        (use False r Insert_before_new[OF w r v n] in \<open>auto simp: contents_def\<close>)
  qed
qed

subsection \<open>\<open>Move\<close> and \<open>Remove\<close> on the values of the set\<close>

lemma Insert_returns:
  assumes w: "consistent s" and k: "Has mark s"
  shows "\<exists>b s'. Insert v mark after s = Inr ((b, None), s')"
proof (cases "Has v s")
  case True
  with k show ?thesis using Insert_member[of mark s v after] by blast
next
  case False
  from consistent_member_split[OF w k] obtain pre m post where
    r: "ring (list s) = pre @ m # post" and m: "Value m = mark" and n: "\<not> is_NaN mark" by metis
  from n m have n': "\<not> is_NaN (Value m)" by simp
  from Insert_new_contents[OF w r False n', of after] m show ?thesis by metis
qed

lemma Move_returns:
  assumes w: "consistent s" and k: "Has mark s"
  shows "\<exists>s'. Move v mark after s = Inr (None, s')"
proof -
  consider "\<not> Has v s" | "Has v s" "v = mark" | "Has v s" "v \<noteq> mark" by blast
  then show ?thesis
  proof cases
    case 1
    with k show ?thesis by (simp add: Move_absent)
  next
    case 2
    then show ?thesis using Move_self[OF w, of v after] by simp
  next
    case 3
    from Move_member_contents[OF w 3(1) k 3(2), of after] show ?thesis by metis
  qed
qed

lemma Insert_error_only_no_mark:
  "Insert v mark after s = Inr ((b, Some e), s') \<Longrightarrow> \<not> Has mark s \<and> b = False \<and> s' = s"
  by (auto simp: Insert_def split: if_splits sum.splits)

lemma Move_error_only_no_mark:
  "Move v mark after s = Inr (Some e, s') \<Longrightarrow> \<not> Has mark s \<and> s' = s"
  by (auto simp: Move_def split: if_splits sum.splits option.splits)

lemma Remove_member_contents:
  assumes w: "consistent s" and v: "Has v s"
  obtains s' where "Remove v s = Inr (True, s')" "contents s' = remove1 v (contents s)"
    "\<not> Has v s'" "Len s' = Len s - 1" "\<And>u. u \<noteq> v \<Longrightarrow> Has u s' = Has u s"
proof -
  from consistent_member_split[OF w v] obtain pre m post where
    r: "ring (list s) = pre @ m # post" and m: "Value m = v"
    and c: "contents s = map Value pre @ v # map Value post" and n: "v \<notin> set (map Value pre)"
    and nn: "\<not> is_NaN v"
    by metis
  from nn m have n': "\<not> is_NaN (Value m)" by simp
  let ?s' = "s\<lparr>list := (list s)\<lparr>ring := pre @ post\<rparr>, mapping := map_delete (mapping s) (Value m)\<rparr>"
  have rm: "Remove v s = Inr (True, ?s')" using Remove_member[OF w r n'] m by simp
  have cs: "contents ?s' = remove1 v (contents s)" using c n by (simp add: remove1_split contents_def)
  have "\<not> Has v ?s'" "Len ?s' = Len s - 1" "\<And>u. u \<noteq> v \<Longrightarrow> Has u ?s' = Has u s"
    using m r nn by (simp_all add: Has_def Len_def list_Len_def map_index_delete go_eq_def)
  with rm cs show thesis using that by blast
qed

subsection \<open>\<open>New\<close> and the first occurrences\<close>

lemma Has_list_ex: "consistent s \<Longrightarrow> Has v s \<longleftrightarrow> list_ex (\<lambda>u. go_eq u v) (contents s)"
  by (auto simp: inv_Has list_ex_iff go_eq_def)

lemma fold_Append_first_occurrences:
  "consistent s \<Longrightarrow>
   contents (fold (\<lambda>v s. snd (Append v s)) vs s) = contents s @ first_occurrences (contents s) vs"
proof (induction vs arbitrary: s)
  case Nil
  show ?case by simp
next
  case (Cons v vs)
  have w': "consistent (snd (Append v s))" by (rule inv_Append[OF Cons.prems])
  show ?case
    using Cons.IH[OF w'] Cons.prems
    by (simp add: contents_Append Has_list_ex)
qed

lemma contents_New: "contents (New vs) = first_occurrences [] vs"
  using fold_Append_first_occurrences[OF inv_empty, of vs]
  by (simp add: New_def contents_def list_New_def)

lemma first_occurrences_Val:
  "first_occurrences (map Val seen) (map Val xs)
     = map Val (rev (remdups (rev (filter (\<lambda>x. x \<notin> set seen) xs))))"
proof (induction xs arbitrary: seen)
  case Nil
  show ?case by simp
next
  case (Cons x xs)
  have ex: "list_ex (\<lambda>u. go_eq u (Val x)) (map Val seen) \<longleftrightarrow> x \<in> set seen"
    by (auto simp: list_ex_iff go_eq_def is_NaN_def)
  show ?case
  proof (cases "x \<in> set seen")
    case True
    then show ?thesis using Cons.IH[of seen] ex by simp
  next
    case False
    have f: "filter (\<lambda>y. y \<notin> set (seen @ [x])) xs = filter (\<lambda>y. y \<noteq> x) (filter (\<lambda>y. y \<notin> set seen) xs)"
      by (induction xs) auto
    have "rev (remdups (rev (x # ys))) = x # rev (remdups (rev (filter (\<lambda>y. y \<noteq> x) ys)))" for ys :: "'a list"
    proof -
      have "remdups (zs @ [x]) = remdups (filter (\<lambda>y. y \<noteq> x) zs) @ [x]" for zs :: "'a list"
        by (induction zs) auto
      from this[of "rev ys"] show ?thesis by (simp add: rev_filter)
    qed
    then show ?thesis using Cons.IH[of "seen @ [x]"] ex False f by simp
  qed
qed

lemma contents_New_Val: "contents (New (map Val xs)) = map Val (rev (remdups (rev xs)))"
  using first_occurrences_Val[of "[]" xs] by (simp add: contents_New)

lemma first_occurrences_distinct:
  "distinct vs \<Longrightarrow> set seen \<inter> set vs = {} \<Longrightarrow> first_occurrences seen vs = vs"
proof (induction vs arbitrary: seen)
  case Nil
  show ?case by simp
next
  case (Cons v vs)
  from Cons.prems have "\<not> list_ex (\<lambda>u. go_eq u v) seen" by (auto simp: list_ex_iff go_eq_def)
  moreover have "first_occurrences (seen @ [v]) vs = vs" using Cons.prems by (intro Cons.IH) auto
  ultimately show ?case by simp
qed

lemma contents_New_distinct: "distinct vs \<Longrightarrow> contents (New vs) = vs"
  by (simp add: contents_New first_occurrences_distinct)

subsection \<open>The values that are equal to themselves are held once\<close>


subsection \<open>Repeated \<open>Pop\<close> and \<open>Shift\<close>\<close>

lemma calls_Pop_all:
  "ring (list s) = r \<Longrightarrow> consistent s \<Longrightarrow>
   \<exists>s'. calls (Pop zero) (length r) s
           = Inr (map (\<lambda>v. (v, v \<noteq> NilIface)) (rev (map Value r)), s')
        \<and> ring (list s') = []"
proof (induction r arbitrary: s rule: rev_induct)
  case Nil
  then show ?case by simp
next
  case (snoc m pre)
  let ?s1 = "s\<lparr>list := (list s)\<lparr>ring := pre\<rparr>, mapping := map_delete (mapping s) (Value m)\<rparr>"
  have p: "Pop zero s = Inr ((Value m, Value m \<noteq> NilIface), ?s1)"
    by (rule Pop_last[OF snoc.prems(2,1)])
  have w1: "consistent ?s1" by (rule inv_Pop[OF snoc.prems(2) p])
  have "ring (list ?s1) = pre" by simp
  from snoc.IH[OF this w1] obtain s' where
    "calls (Pop zero) (length pre) ?s1
       = Inr (map (\<lambda>v. (v, v \<noteq> NilIface)) (rev (map Value pre)), s')"
    "ring (list s') = []" by blast
  with p show ?case by simp
qed

lemma calls_Shift_all:
  "ring (list s) = r \<Longrightarrow> consistent s \<Longrightarrow>
   \<exists>s'. calls (Shift zero) (length r) s
           = Inr (map (\<lambda>v. (v, v \<noteq> NilIface)) (map Value r), s')
        \<and> ring (list s') = []"
proof (induction r arbitrary: s)
  case Nil
  then show ?case by simp
next
  case (Cons m post)
  let ?s1 = "s\<lparr>list := (list s)\<lparr>ring := post\<rparr>, mapping := map_delete (mapping s) (Value m)\<rparr>"
  have p: "Shift zero s = Inr ((Value m, Value m \<noteq> NilIface), ?s1)"
    by (rule Shift_first[OF Cons.prems(2,1)])
  have w1: "consistent ?s1" by (rule inv_Shift[OF Cons.prems(2) p])
  have "ring (list ?s1) = post" by simp
  from Cons.IH[OF this w1] obtain s' where
    "calls (Shift zero) (length post) ?s1
       = Inr (map (\<lambda>v. (v, v \<noteq> NilIface)) (map Value post), s')"
    "ring (list s') = []" by blast
  with p show ?case by simp
qed

lemma Pop_Shift_duality_general:
  assumes "distinct vs"
  shows "(\<exists>s'. calls (Pop zero) (length vs) (fold (\<lambda>v s. snd (Append v s)) vs (New []))
                 = Inr (map (\<lambda>v. (v, v \<noteq> NilIface)) (rev vs), s') \<and> Len s' = 0) \<and>
         (\<exists>s'. calls (Shift zero) (length vs) (fold (\<lambda>v s. snd (Append v s)) vs (New []))
                 = Inr (map (\<lambda>v. (v, v \<noteq> NilIface)) vs, s') \<and> Len s' = 0) \<and>
         (Len t = 0 \<longrightarrow> Pop zero t = Inr ((zero, False), t) \<and> Shift zero t = Inr ((zero, False), t))"
proof -
  let ?s = "fold (\<lambda>v s. snd (Append v s)) vs (New [])"
  have s: "?s = New vs" by (simp add: New_def)
  have w: "consistent ?s" unfolding s by (rule inv_New)
  have c: "map Value (ring (list ?s)) = vs"
    using contents_New_distinct[OF assms] unfolding s by (simp add: contents_def)
  then have l: "length (ring (list ?s)) = length vs" by (metis length_map)
  from calls_Pop_all[OF refl w, of zero] c l
  have a: "\<exists>s'. calls (Pop zero) (length vs) ?s
                   = Inr (map (\<lambda>v. (v, v \<noteq> NilIface)) (rev vs), s') \<and> Len s' = 0"
    by (auto simp: Len_def list_Len_def)
  from calls_Shift_all[OF refl w, of zero] c l
  have b: "\<exists>s'. calls (Shift zero) (length vs) ?s
                   = Inr (map (\<lambda>v. (v, v \<noteq> NilIface)) vs, s') \<and> Len s' = 0"
    by (auto simp: Len_def list_Len_def)
  have "Len t = 0 \<longrightarrow> Pop zero t = Inr ((zero, False), t) \<and> Shift zero t = Inr ((zero, False), t)"
    by (simp add: Pop_def Shift_def)
  with a b show ?thesis by blast
qed

subsection \<open>The traversal\<close>










section \<open>The claims\<close>




text \<open>
  Claim C2 (\<open>Insert\<close> when the mark is a member). On a reachable set that has \<open>mark\<close>:
  when \<open>v\<close> is not a member, \<open>Insert(v, mark, after)\<close> returns \<open>(true, nil)\<close>, and the
  sequence, which was \<open>pre @ mark # post\<close>, becomes \<open>pre @ mark # v # post\<close> when \<open>after\<close>
  is true and \<open>pre @ v # mark # post\<close> when it is false, so all other values keep their
  order; the value is held by a new element, whose address is not in the sequence before
  the call, and the index is assigned the pointer to it under \<open>v\<close>; \<open>Slice\<close> returns these
  sequences before and after the call, provided that no member is a nil interface value,
  on which \<open>Slice\<close> panics. When \<open>v\<close> is a member already, \<open>Insert\<close> returns \<open>(false, nil)\<close>
  and the set is the same as before.
\<close>

theorem Insert_contract:
  assumes "reachable s" and "Has mark s"
  shows "(\<not> Has v s \<longrightarrow>
            (\<exists>pre post s' e.
               contents s = pre @ mark # post \<and>
               Insert v mark after s = Inr ((True, None), s') \<and>
               contents s' = (if after then pre @ mark # v # post else pre @ v # mark # post) \<and>
               Value e = v \<and> addr e \<notin> addr ` set (ring (list s)) \<and>
               mapping s' = map_assign (mapping s) v (Some e) \<and>
               set (ring (list s')) = insert e (set (ring (list s))) \<and>
               (NilIface \<notin> set (contents s) \<longrightarrow> Slice zero s = Inr (pre @ mark # post)) \<and>
               (NilIface \<notin> set (contents s') \<longrightarrow>
                  Slice zero s' =
                    Inr (if after then pre @ mark # v # post else pre @ v # mark # post)))) \<and>
         (Has v s \<longrightarrow> Insert v mark after s = Inr ((False, None), s))"
proof (intro conjI impI)
  assume v: "\<not> Has v s"
  from assms(1) have w: "consistent s" by (rule reachable_consistent)
  from consistent_member_split[OF w assms(2)] obtain pre m post where
    r: "ring (list s) = pre @ m # post" and m: "Value m = mark"
    and c: "contents s = map Value pre @ mark # map Value post" and n: "\<not> is_NaN mark" by metis
  from n m have n': "\<not> is_NaN (Value m)" by simp
  from Insert_new_contents[OF w r v n', of after] m obtain s' e where
    i: "Insert v mark after s = Inr ((True, None), s')"
    and c': "contents s' = (if after then map Value pre @ mark # v # map Value post
                    else map Value pre @ v # mark # map Value post)"
    and e: "Value e = v" "addr e \<notin> addr ` set (ring (list s))"
    "mapping s' = map_assign (mapping s) v (Some e)" "set (ring (list s')) = insert e (set (ring (list s)))"
    by metis
  have s1: "NilIface \<notin> set (contents s) \<longrightarrow> Slice zero s = Inr (map Value pre @ mark # map Value post)"
    using Slice_contents[of s zero] c by simp
  have s2: "NilIface \<notin> set (contents s') \<longrightarrow>
      Slice zero s' = Inr (if after then map Value pre @ mark # v # map Value post
                    else map Value pre @ v # mark # map Value post)"
    using Slice_contents[of s' zero] c' by simp
  show "\<exists>pre post s' e.
               contents s = pre @ mark # post \<and>
               Insert v mark after s = Inr ((True, None), s') \<and>
               contents s' = (if after then pre @ mark # v # post else pre @ v # mark # post) \<and>
               Value e = v \<and> addr e \<notin> addr ` set (ring (list s)) \<and>
               mapping s' = map_assign (mapping s) v (Some e) \<and>
               set (ring (list s')) = insert e (set (ring (list s))) \<and>
               (NilIface \<notin> set (contents s) \<longrightarrow> Slice zero s = Inr (pre @ mark # post)) \<and>
               (NilIface \<notin> set (contents s') \<longrightarrow>
                  Slice zero s' =
                    Inr (if after then pre @ mark # v # post else pre @ v # mark # post))"
    by (intro exI[of _ "map Value pre"] exI[of _ "map Value post"] exI[of _ s'] exI[of _ e] conjI)
       (rule c i c' e s1 s2)+
next
  assume "Has v s"
  with assms(2) show "Insert v mark after s = Inr ((False, None), s)" by (rule Insert_member)
qed

theorem Insert_contract_witness:
  "reachable (New (map Val [1, 2, 3, 5 :: int])) \<and> Has (Val 3) (New (map Val [1, 2, 3, 5 :: int])) \<and>
   \<not> Has (Val 4) (New (map Val [1, 2, 3, 5 :: int])) \<and>
   (\<exists>s'. Insert (Val 4) (Val 3) True (New (map Val [1, 2, 3, 5 :: int])) = Inr ((True, None), s') \<and>
         Slice (Val 0) s' = Inr (map Val [1, 2, 3, 4, 5]) \<and>
         Insert (Val 4) (Val 3) True s' = Inr ((False, None), s') \<and>
         Insert (Val 4) (Val 3) False s' = Inr ((False, None), s'))"
proof -
  let ?s = "New (map Val [1, 2, 3, 5 :: int])"
  have r: "reachable ?s" by (rule reachable.New)
  have h3: "Has (Val 3) ?s" and h4: "\<not> Has (Val 4) ?s" by code_simp+
  have ev: "case Insert (Val 4) (Val 3) True ?s of Inl _ \<Rightarrow> False
            | Inr (_, s') \<Rightarrow> Slice (Val 0) s' = Inr (map Val [1, 2, 3, 4, 5]) \<and>
                Has (Val 3) s' \<and> Has (Val 4) s'"
    by code_simp
  from Insert_contract[OF r h3, of "Val 4" True "Val 0"] h4 obtain s' where
    i: "Insert (Val 4) (Val 3) True ?s = Inr ((True, None), s')" by blast
  from ev i have sl: "Slice (Val 0) s' = Inr (map Val [1, 2, 3, 4, 5])"
    and h3': "Has (Val 3) s'" and h4': "Has (Val 4) s'" by simp_all
  have r': "reachable s'" by (rule reachable.Insert[OF r i])
  from Insert_contract[OF r' h3', of "Val 4" True "Val 0"]
    Insert_contract[OF r' h3', of "Val 4" False "Val 0"] h4'
  have "Insert (Val 4) (Val 3) True s' = Inr ((False, None), s')"
    "Insert (Val 4) (Val 3) False s' = Inr ((False, None), s')"
    by simp_all
  with r h3 h4 i sl show ?thesis by blast
qed

text \<open>
  Claim C3 (\<open>Move\<close> when the mark is a member). On a reachable set that has \<open>mark\<close>:
  when \<open>v\<close> is not a member, \<open>Move(v, mark, after)\<close> returns nil and the set is the same as
  before. When \<open>v\<close> is a member, \<open>Move\<close> returns nil, the index is the same as before, so
  the entry of \<open>v\<close> is the same pointer, and the sequence holds the same elements; with
  \<open>v\<close> different from \<open>mark\<close>, the sequence is the old one with \<open>v\<close> taken out and put
  back right behind \<open>mark\<close> (\<open>after\<close> true) or right in front of it (\<open>after\<close> false); with
  \<open>v\<close> equal to \<open>mark\<close> the set is the same as before. \<open>Slice\<close> returns the sequence before
  and after the call, provided that no member is a nil interface value.
\<close>

theorem Move_contract:
  assumes "reachable s" and "Has mark s"
  shows "(\<not> Has v s \<longrightarrow> Move v mark after s = Inr (None, s)) \<and>
         (Has v s \<longrightarrow>
            (\<exists>s'.
               Move v mark after s = Inr (None, s') \<and>
               mapping s' = mapping s \<and> set (ring (list s')) = set (ring (list s)) \<and>
               (v = mark \<longrightarrow> s' = s) \<and>
               (v \<noteq> mark \<longrightarrow>
                  (\<exists>pre post.
                     remove1 v (contents s) = pre @ mark # post \<and>
                     contents s' = (if after then pre @ mark # v # post else pre @ v # mark # post))) \<and>
               (NilIface \<notin> set (contents s) \<longrightarrow>
                  Slice zero s = Inr (contents s) \<and> Slice zero s' = Inr (contents s'))))"
proof (intro conjI impI)
  assume "\<not> Has v s"
  with assms(2) show "Move v mark after s = Inr (None, s)" by (rule Move_absent)
next
  assume v: "Has v s"
  from assms(1) have w: "consistent s" by (rule reachable_consistent)
  show "\<exists>s'.
               Move v mark after s = Inr (None, s') \<and>
               mapping s' = mapping s \<and> set (ring (list s')) = set (ring (list s)) \<and>
               (v = mark \<longrightarrow> s' = s) \<and>
               (v \<noteq> mark \<longrightarrow>
                  (\<exists>pre post.
                     remove1 v (contents s) = pre @ mark # post \<and>
                     contents s' = (if after then pre @ mark # v # post else pre @ v # mark # post))) \<and>
               (NilIface \<notin> set (contents s) \<longrightarrow>
                  Slice zero s = Inr (contents s) \<and> Slice zero s' = Inr (contents s'))"
  proof (cases "v = mark")
    case True
    then show ?thesis using Move_self[OF w v, of after] Slice_contents[of s zero] by auto
  next
    case False
    from Move_member_contents[OF w v assms(2) False, of after] obtain pre post s' where
      a: "remove1 v (contents s) = pre @ mark # post"
      "Move v mark after s = Inr (None, s')"
      "contents s' = (if after then pre @ mark # v # post else pre @ v # mark # post)"
      "mapping s' = mapping s" "set (ring (list s')) = set (ring (list s))" by metis
    from a(5) have "set (contents s') = set (contents s)" by (simp add: contents_def)
    then have "NilIface \<notin> set (contents s) \<longrightarrow>
                  Slice zero s = Inr (contents s) \<and> Slice zero s' = Inr (contents s')"
      using Slice_contents[of s zero] Slice_contents[of s' zero] by simp
    with a False show ?thesis by (intro exI[of _ s']) auto
  qed
qed

theorem Move_contract_witness:
  "reachable (New (map Val [1, 2, 4, 3, 5 :: int])) \<and> Has (Val 3) (New (map Val [1, 2, 4, 3, 5 :: int])) \<and>
   Has (Val 4) (New (map Val [1, 2, 4, 3, 5 :: int])) \<and> \<not> Has (Val 7) (New (map Val [1, 2, 4, 3, 5 :: int])) \<and>
   (\<exists>s'. Move (Val 4) (Val 3) True (New (map Val [1, 2, 4, 3, 5 :: int])) = Inr (None, s') \<and>
         Slice (Val 0) s' = Inr (map Val [1, 2, 3, 4, 5]) \<and>
         mapping s' = mapping (New (map Val [1, 2, 4, 3, 5 :: int]))) \<and>
   Move (Val 7) (Val 3) True (New (map Val [1, 2, 4, 3, 5 :: int]))
     = Inr (None, New (map Val [1, 2, 4, 3, 5 :: int]))"
proof -
  let ?s = "New (map Val [1, 2, 4, 3, 5 :: int])"
  have r: "reachable ?s" by (rule reachable.New)
  have h3: "Has (Val 3) ?s" and h4: "Has (Val 4) ?s" and h7: "\<not> Has (Val 7) ?s" by code_simp+
  have ev: "case Move (Val 4) (Val 3) True ?s of Inl _ \<Rightarrow> False
            | Inr (_, s') \<Rightarrow> Slice (Val 0) s' = Inr (map Val [1, 2, 3, 4, 5])"
    by code_simp
  from Move_contract[OF r h3, of "Val 4" True "Val 0"] h4 obtain s' where
    i: "Move (Val 4) (Val 3) True ?s = Inr (None, s')" and m: "mapping s' = mapping ?s" by auto
  from ev i have sl: "Slice (Val 0) s' = Inr (map Val [1, 2, 3, 4, 5])" by simp
  from Move_contract[OF r h3, of "Val 7" True "Val 0"] h7
  have "Move (Val 7) (Val 3) True ?s = Inr (None, ?s)" by simp
  with r h3 h4 h7 i m sl show ?thesis by blast
qed

text \<open>
  Claim C4 (\<open>ErrMarkNotFound\<close>: exactly when the mark is missing, and atomic). For every
  set and all arguments, \<open>Insert\<close> returns \<open>ErrMarkNotFound\<close> exactly when \<open>mark\<close> is not a
  member, and so does \<open>Move\<close>; whenever either returns an error, it is that error, \<open>Insert\<close>
  reports \<open>added = false\<close>, and the set after the call is the set before it. On a reachable
  set that has \<open>mark\<close> both return, with a nil error.
\<close>

theorem MarkNotFound_iff_atomic:
  "((\<exists>b s'. Insert v mark after s = Inr ((b, Some ErrMarkNotFound), s')) \<longleftrightarrow> \<not> Has mark s) \<and>
   (\<forall>b e s'. Insert v mark after s = Inr ((b, Some e), s') \<longrightarrow>
        e = ErrMarkNotFound \<and> b = False \<and> s' = s) \<and>
   ((\<exists>s'. Move v mark after s = Inr (Some ErrMarkNotFound, s')) \<longleftrightarrow> \<not> Has mark s) \<and>
   (\<forall>e s'. Move v mark after s = Inr (Some e, s') \<longrightarrow> e = ErrMarkNotFound \<and> s' = s) \<and>
   (reachable s \<and> Has mark s \<longrightarrow>
      (\<exists>b s'. Insert v mark after s = Inr ((b, None), s')) \<and>
      (\<exists>s'. Move v mark after s = Inr (None, s')))"
proof (intro conjI allI impI)
  show "(\<exists>b s'. Insert v mark after s = Inr ((b, Some ErrMarkNotFound), s')) \<longleftrightarrow> \<not> Has mark s"
    using Insert_error_only_no_mark[of v mark after s] Insert_no_mark[of mark s v after] by blast
  show "(\<exists>s'. Move v mark after s = Inr (Some ErrMarkNotFound, s')) \<longleftrightarrow> \<not> Has mark s"
    using Move_error_only_no_mark[of v mark after s] Move_no_mark[of mark s v after] by blast
next
  fix b e s'
  assume "Insert v mark after s = Inr ((b, Some e), s')"
  from Insert_error_only_no_mark[OF this]
  show "e = ErrMarkNotFound" "b = False" "s' = s" by (cases e, simp_all)
next
  fix e s'
  assume "Move v mark after s = Inr (Some e, s')"
  from Move_error_only_no_mark[OF this]
  show "e = ErrMarkNotFound" "s' = s" by (cases e, simp_all)
next
  assume a: "reachable s \<and> Has mark s"
  then have w: "consistent s" by (simp add: reachable_consistent)
  from a show "\<exists>b s'. Insert v mark after s = Inr ((b, None), s')"
    using Insert_returns[OF w] by blast
  from a show "\<exists>s'. Move v mark after s = Inr (None, s')"
    using Move_returns[OF w] by blast
qed

theorem MarkNotFound_iff_atomic_witness:
  "\<not> Has (Val 99999) (New (map Val [1, 2, 3, 4, 5 :: int])) \<and>
   Insert (Val 4) (Val 99999) True (New (map Val [1, 2, 3, 4, 5 :: int]))
     = Inr ((False, Some ErrMarkNotFound), New (map Val [1, 2, 3, 4, 5 :: int])) \<and>
   Move (Val 4) (Val 999) True (New (map Val [1, 2, 3, 4, 5 :: int]))
     = Inr (Some ErrMarkNotFound, New (map Val [1, 2, 3, 4, 5 :: int])) \<and>
   reachable (New (map Val [1, 2, 3, 4, 5 :: int])) \<and> Has (Val 3) (New (map Val [1, 2, 3, 4, 5 :: int])) \<and>
   (\<exists>b s'. Insert (Val 9) (Val 3) False (New (map Val [1, 2, 3, 4, 5 :: int])) = Inr ((b, None), s')) \<and>
   (\<exists>s'. Move (Val 9) (Val 3) False (New (map Val [1, 2, 3, 4, 5 :: int])) = Inr (None, s'))"
proof -
  let ?s = "New (map Val [1, 2, 3, 4, 5 :: int])"
  have n: "\<not> Has (Val 99999) ?s" "\<not> Has (Val 999) ?s" and h: "Has (Val 3) ?s" by code_simp+
  have r: "reachable ?s" by (rule reachable.New)
  from MarkNotFound_iff_atomic[of "Val 4" "Val 99999" True ?s] n(1)
  have "Insert (Val 4) (Val 99999) True ?s = Inr ((False, Some ErrMarkNotFound), ?s)" by blast
  moreover from MarkNotFound_iff_atomic[of "Val 4" "Val 999" True ?s] n(2)
  have "Move (Val 4) (Val 999) True ?s = Inr (Some ErrMarkNotFound, ?s)" by blast
  moreover from MarkNotFound_iff_atomic[of "Val 9" "Val 3" False ?s] r h
  have "(\<exists>b s'. Insert (Val 9) (Val 3) False ?s = Inr ((b, None), s')) \<and>
        (\<exists>s'. Move (Val 9) (Val 3) False ?s = Inr (None, s'))" by blast
  ultimately show ?thesis using n r h by blast
qed

text \<open>
  Claim C5 (\<open>Remove\<close>). On a reachable set: when \<open>v\<close> is not a member, \<open>Remove(v)\<close> returns
  false and the set is the same as before; when \<open>v\<close> is a member, it returns true,
  afterwards \<open>Has(v)\<close> is false, \<open>Len\<close> is one less, membership of every other value is as
  before, and the sequence is the old one with the one occurrence of \<open>v\<close> deleted, which is
  what \<open>Slice\<close> returns before and after the call, provided that no member is a nil
  interface value.
\<close>

theorem Remove_contract:
  assumes "reachable s"
  shows "(\<not> Has v s \<longrightarrow> Remove v s = Inr (False, s)) \<and>
         (Has v s \<longrightarrow>
            (\<exists>s'.
               Remove v s = Inr (True, s') \<and> \<not> Has v s' \<and>
               Len s' = Len s - 1 \<and> contents s' = remove1 v (contents s) \<and>
               (\<forall>u. u \<noteq> v \<longrightarrow> Has u s' = Has u s) \<and>
               (NilIface \<notin> set (contents s) \<longrightarrow>
                  Slice zero s = Inr (contents s) \<and>
                  Slice zero s' = Inr (remove1 v (contents s)))))"
proof (intro conjI impI)
  assume "\<not> Has v s"
  then show "Remove v s = Inr (False, s)" by (rule Remove_absent)
next
  assume v: "Has v s"
  from assms have w: "consistent s" by (rule reachable_consistent)
  from Remove_member_contents[OF w v] obtain s' where
    a: "Remove v s = Inr (True, s')" "contents s' = remove1 v (contents s)"
    "\<not> Has v s'" "Len s' = Len s - 1" "\<And>u. u \<noteq> v \<Longrightarrow> Has u s' = Has u s" by metis
  have "NilIface \<notin> set (contents s) \<longrightarrow> NilIface \<notin> set (contents s')"
    using a(2) by (metis notin_set_remove1)
  then have "NilIface \<notin> set (contents s) \<longrightarrow>
                  Slice zero s = Inr (contents s) \<and>
                  Slice zero s' = Inr (remove1 v (contents s))"
    using Slice_contents[of s zero] Slice_contents[of s' zero] a(2) by simp
  with a show "\<exists>s'.
               Remove v s = Inr (True, s') \<and> \<not> Has v s' \<and>
               Len s' = Len s - 1 \<and> contents s' = remove1 v (contents s) \<and>
               (\<forall>u. u \<noteq> v \<longrightarrow> Has u s' = Has u s) \<and>
               (NilIface \<notin> set (contents s) \<longrightarrow>
                  Slice zero s = Inr (contents s) \<and>
                  Slice zero s' = Inr (remove1 v (contents s)))"
    by (intro exI[of _ s']) simp
qed

theorem Remove_contract_witness:
  "reachable (New (map Val [0, 10, 20 :: int])) \<and> Has (Val 10) (New (map Val [0, 10, 20 :: int])) \<and>
   \<not> Has (Val 15) (New (map Val [0, 10, 20 :: int])) \<and>
   Remove (Val 15) (New (map Val [0, 10, 20 :: int])) = Inr (False, New (map Val [0, 10, 20 :: int])) \<and>
   (\<exists>s'. Remove (Val 10) (New (map Val [0, 10, 20 :: int])) = Inr (True, s') \<and> \<not> Has (Val 10) s' \<and>
         Len s' = 2 \<and> Slice (Val 0) s' = Inr (map Val [0, 20]))"
proof -
  let ?s = "New (map Val [0, 10, 20 :: int])"
  have r: "reachable ?s" by (rule reachable.New)
  have h: "Has (Val 10) ?s" "\<not> Has (Val 15) ?s" by code_simp+
  have c: "contents ?s = map Val [0, 10, 20]" and l: "Len ?s = 3" by code_simp+
  from Remove_contract[OF r, of "Val 15" "Val 0"] h have a: "Remove (Val 15) ?s = Inr (False, ?s)" by simp
  from Remove_contract[OF r, of "Val 10" "Val 0"] h c l obtain s' where
    "Remove (Val 10) ?s = Inr (True, s')" "\<not> Has (Val 10) s'" "Len s' = 2"
    "Slice (Val 0) s' = Inr (map Val [0, 20])"
    by auto
  with r h a show ?thesis by blast
qed

text \<open>
  Claim C6 (\<open>Pop\<close>/\<open>Shift\<close> duality), the code at the input where it departs from the claim.
  \<open>T\<close> is an interface type and the set is built by \<open>Append\<close> of its nil value, a list of
  one value, so pairwise distinct. The set has length 1, and yet \<open>Pop\<close> returns
  \<open>(nil, false)\<close>, and so does \<open>Shift\<close>: \<open>ok\<close> is the result of the type assertion
  \<open>elem.Value.(T)\<close>, which fails on a nil interface value. The claim, and the comment on
  \<open>Pop\<close> and \<open>Shift\<close> in \<open>ordset.go\<close> ("This will only ever be false if the OrderedSet is
  empty"), say \<open>(nil, true)\<close>. On values that are not nil the calls return what the claim
  says: lemma \<open>Pop_Shift_duality_general\<close>.
\<close>

theorem Pop_Shift_nil_member_not_ok:
  "distinct [NilIface :: nat gval] \<and>
   fold (\<lambda>v s. snd (Append v s)) [NilIface :: nat gval] (New []) = New [NilIface] \<and>
   Len (New [NilIface :: nat gval]) = 1 \<and>
   Pop NilIface (New [NilIface :: nat gval])
     = Inr ((NilIface, False), \<lparr>list = \<lparr>ring = [], heap_next = 1\<rparr>, mapping = []\<rparr>) \<and>
   Shift NilIface (New [NilIface :: nat gval])
     = Inr ((NilIface, False), \<lparr>list = \<lparr>ring = [], heap_next = 1\<rparr>, mapping = []\<rparr>) \<and>
   calls (Pop NilIface) 1 (New [NilIface :: nat gval])
     = Inr ([(NilIface, False)], \<lparr>list = \<lparr>ring = [], heap_next = 1\<rparr>, mapping = []\<rparr>)"
  by code_simp




text \<open>
  Claim C8 (construction dedup). \<open>New\<close> of a list of values is the empty set with \<open>Append\<close>
  called on each value in the given order. Its sequence is the list of the values with
  every value dropped to which an earlier one is \<open>==\<close>, in the order given, and that is
  what \<open>Slice\<close> returns, provided that no value is a nil interface value. For values on
  which \<open>==\<close> is equality and which are not nil, \<open>Slice\<close> returns the list with every
  occurrence after the first one dropped (\<open>remdups\<close> keeps the last occurrence of each
  value, so it is applied to the reversed list). \<open>New\<close> returns a set, never an error.
  \<open>New(0,3,4,1,19,21,4,3,0).Slice()\<close> is \<open>[0,3,4,1,19,21]\<close>.
\<close>

theorem New_dedup:
  "New vs = fold (\<lambda>v s. snd (Append v s)) vs (New []) \<and>
   contents (New vs) = first_occurrences [] vs \<and>
   (NilIface \<notin> set vs \<longrightarrow> Slice zero (New vs) = Inr (first_occurrences [] vs)) \<and>
   Slice zero (New (map Val xs)) = Inr (map Val (rev (remdups (rev xs)))) \<and>
   Slice (Val 0) (New (map Val [0, 3, 4, 1, 19, 21, 4, 3, 0 :: int]))
     = Inr (map Val [0, 3, 4, 1, 19, 21])"
proof (intro conjI impI)
  show "New vs = fold (\<lambda>v s. snd (Append v s)) vs (New [])" by (simp add: New_def)
  show "contents (New vs) = first_occurrences [] vs" by (rule contents_New)
  have sub: "set (first_occurrences seen us) \<subseteq> set us" for seen and us :: "'a gval list"
    by (induction us arbitrary: seen) auto
  show "Slice zero (New vs) = Inr (first_occurrences [] vs)" if "NilIface \<notin> set vs"
    using that sub[of "[]" vs] Slice_contents[of "New vs" zero] by (auto simp: contents_New)
  have val: "Slice z (New (map Val ys)) = Inr (map Val (rev (remdups (rev ys))))"
    for z and ys :: "'b list"
    using Slice_contents[of "New (map Val ys)" z] by (auto simp: contents_New_Val)
  show "Slice zero (New (map Val xs)) = Inr (map Val (rev (remdups (rev xs))))" by (rule val)
  show "Slice (Val 0) (New (map Val [0, 3, 4, 1, 19, 21, 4, 3, 0 :: int]))
     = Inr (map Val [0, 3, 4, 1, 19, 21])"
    using val[of "Val 0" "[0, 3, 4, 1, 19, 21, 4, 3, 0 :: int]"] by simp
qed

theorem New_dedup_witness:
  "NilIface \<notin> set [Val 1, NaN 7, Val 1, NaN 7 :: nat gval] \<and>
   first_occurrences [] [Val 1, NaN 7, Val 1, NaN 7 :: nat gval] = [Val 1, NaN 7, NaN 7] \<and>
   Slice (Val 0) (New [Val 1, NaN 7, Val 1, NaN 7 :: nat gval]) = Inr [Val 1, NaN 7, NaN 7]"
proof -
  have a: "NilIface \<notin> set [Val 1, NaN 7, Val 1, NaN 7 :: nat gval]" by simp
  have b: "first_occurrences [] [Val 1, NaN 7, Val 1, NaN 7 :: nat gval] = [Val 1, NaN 7, NaN 7]"
    by code_simp
  from New_dedup[of "[Val 1, NaN 7, Val 1, NaN 7 :: nat gval]" "Val 0" "[]"] a
  have "Slice (Val 0) (New [Val 1, NaN 7, Val 1, NaN 7 :: nat gval])
          = Inr (first_occurrences [] [Val 1, NaN 7, Val 1, NaN 7 :: nat gval])" by blast
  then have c: "Slice (Val 0) (New [Val 1, NaN 7, Val 1, NaN 7 :: nat gval]) = Inr [Val 1, NaN 7, NaN 7]"
    by (simp only: b)
  show ?thesis by (intro conjI) (rule a b c)+
qed




text \<open>
  Claim C10 (\<open>Move\<close> of a value relative to itself). On a reachable set that has \<open>v\<close>,
  \<open>Move(v, v, after)\<close> returns nil and the set after the call is the set before it, for
  \<open>after\<close> true and false.
\<close>

theorem Move_self_noop:
  assumes "reachable s" and "Has v s"
  shows "Move v v after s = Inr (None, s)"
  using Move_self[OF reachable_consistent[OF assms(1)] assms(2)] .

theorem Move_self_noop_witness:
  "reachable (New (map Val [1, 2, 4, 3, 5 :: int])) \<and> Has (Val 4) (New (map Val [1, 2, 4, 3, 5 :: int])) \<and>
   Move (Val 4) (Val 4) True (New (map Val [1, 2, 4, 3, 5 :: int]))
     = Inr (None, New (map Val [1, 2, 4, 3, 5 :: int])) \<and>
   Move (Val 4) (Val 4) False (New (map Val [1, 2, 4, 3, 5 :: int]))
     = Inr (None, New (map Val [1, 2, 4, 3, 5 :: int]))"
proof -
  let ?s = "New (map Val [1, 2, 4, 3, 5 :: int])"
  have r: "reachable ?s" by (rule reachable.New)
  have h: "Has (Val 4) ?s" by code_simp
  from Move_self_noop[OF r h, of True] Move_self_noop[OF r h, of False] r h
  show ?thesis by simp
qed

end
